theory Spec2Isabelle
  imports Complex_Main "HOL-Library.Word"
begin

section \<open>dedup.cpp: removal of PCR duplicates from paired-end FASTQ files\<close>

text \<open>
  The embedding follows \<^verbatim>\<open>src/dedup.cpp\<close> function by function. The three external
  libraries are kept at their call boundary:
  \<^item> zlib: a stream opened for reading is the list of its (decompressed) bytes still to be
    read; \<^verbatim>\<open>gzgets\<close> is modelled after its documentation, buffer length included;
  \<^item> OpenSSL: \<^verbatim>\<open>SHA256\<close> is a parameter, a function from the data to the bytes of the
    digest array;
  \<^item> SQLite: the table \<^verbatim>\<open>hashes\<close> is the set of its rows, and the database handle carries
    a schedule of the failures the environment injects into the calls;
  \<^item> the Bloom filter of \<^verbatim>\<open>bloom_filter.hpp\<close> is a parameter (a record of its
    operations over an abstract filter type).
  A file is reached by its path, and the environment says which paths lead to one and
  the same file. Command line parsing is not modelled; of what is printed on the standard error channel the messages
  are kept, with the numbers they show, and the percentages computed from these numbers
  in double precision are left out. \<^verbatim>\<open>size_t\<close> is a 64-bit word.
\<close>

subsection \<open>Characters and C strings\<close>

definition NUL :: char where
  "NUL = CHR 0x00"

definition newline :: char where
  "newline = CHR 0x0A"

text \<open>
  Assigning a \<^verbatim>\<open>char\<close> buffer to a \<^verbatim>\<open>std::string\<close>, and passing \<^verbatim>\<open>c_str()\<close> to a C
  function, copies the bytes before the first NUL.
\<close>

definition c_string :: "string \<Rightarrow> string" where
  "c_string buf = takeWhile (\<lambda>c. c \<noteq> NUL) buf"

subsection \<open>SHA-256 hashing (hex string)\<close>

definition hex_digit :: "nat \<Rightarrow> char" where
  "hex_digit n = ''0123456789abcdef'' ! n"

text \<open>\<^verbatim>\<open>sprintf(buf, "%02x", hash[i])\<close>: two lower-case hexadecimal digits.\<close>

definition sprintf_02x :: "8 word \<Rightarrow> string" where
  "sprintf_02x b = [hex_digit (unat b div 16), hex_digit (unat b mod 16)]"

text \<open>The loop over the digest array \<^verbatim>\<open>hash[0 .. SHA256_DIGEST_LENGTH - 1]\<close>.\<close>

fun hex_loop :: "8 word list \<Rightarrow> string \<Rightarrow> string" where
  "hex_loop [] hex = hex"
| "hex_loop (b # hash) hex = hex_loop hash (hex @ sprintf_02x b)"

text \<open>
  \<open>SHA256\<close> stands for OpenSSL's function: it maps the data to the
  \<^verbatim>\<open>SHA256_DIGEST_LENGTH\<close> bytes it stores in \<^verbatim>\<open>hash\<close>.
\<close>

definition sha256 :: "(string \<Rightarrow> 8 word list) \<Rightarrow> string \<Rightarrow> string" where
  "sha256 SHA256 data = hex_loop (SHA256 data) []"

subsection \<open>FASTQ records and streams\<close>

record FastqRecord =
  id_f :: string
  seq :: string
  plus_f :: string
  qual :: string

text \<open>A default-constructed record: four empty strings.\<close>

definition FastqRecord_new :: FastqRecord where
  "FastqRecord_new = \<lparr>id_f = [], seq = [], plus_f = [], qual = []\<rparr>"

text \<open>
  \<^verbatim>\<open>gzgets(file, buf, len)\<close> reads bytes until \<open>len - 1\<close> of them are read, or a newline
  is read and stored, or the end of the stream is met. \<open>gets_chunk n file\<close> is the
  pair of the bytes stored and the bytes left, for \<open>n = len - 1\<close>.
\<close>

fun gets_chunk :: "nat \<Rightarrow> string \<Rightarrow> string \<times> string" where
  "gets_chunk n [] = ([], [])"
| "gets_chunk n (c # cs) =
     (if n = 0 then ([], c # cs)
      else if c = newline then ([c], cs)
      else (case gets_chunk (n - 1) cs of (buf, rest) \<Rightarrow> (c # buf, rest)))"

text \<open>It returns NULL (here \<open>None\<close>) when the end is met before any byte is read.\<close>

definition gzgets :: "string \<Rightarrow> nat \<Rightarrow> (string \<times> string) option" where
  "gzgets file len = (if file = [] then None else Some (gets_chunk (len - 1) file))"

text \<open>
  \<^verbatim>\<open>read_fastq_record\<close>: the result is the returned flag, the stream after the call and
  the record after the call. A failing call keeps the fields it has already assigned.
\<close>

definition read_fastq_record :: "string \<Rightarrow> FastqRecord \<Rightarrow> bool \<times> string \<times> FastqRecord" where
  "read_fastq_record file rec =
     (case gzgets file 10000 of
        None \<Rightarrow> (False, file, rec)
      | Some (buf, file) \<Rightarrow>
     let rec = rec\<lparr>id_f := c_string buf\<rparr> in
     (case gzgets file 10000 of
        None \<Rightarrow> (False, file, rec)
      | Some (buf, file) \<Rightarrow>
     let rec = rec\<lparr>seq := c_string buf\<rparr> in
     (case gzgets file 10000 of
        None \<Rightarrow> (False, file, rec)
      | Some (buf, file) \<Rightarrow>
     let rec = rec\<lparr>plus_f := c_string buf\<rparr> in
     (case gzgets file 10000 of
        None \<Rightarrow> (False, file, rec)
      | Some (buf, file) \<Rightarrow>
     let rec = rec\<lparr>qual := c_string buf\<rparr> in
     (True, file, rec)))))"

text \<open>
  An output handle is \<open>None\<close> when \<^verbatim>\<open>gzopen\<close> returned NULL, and otherwise the bytes
  written so far. \<^verbatim>\<open>gzputs\<close> on a NULL handle writes nothing and returns -1, which
  the program does not look at.
\<close>

definition gzputs :: "string option \<Rightarrow> string \<Rightarrow> string option" where
  "gzputs file s = (case file of None \<Rightarrow> None | Some out \<Rightarrow> Some (out @ c_string s))"

definition write_fastq_record :: "string option \<Rightarrow> FastqRecord \<Rightarrow> string option" where
  "write_fastq_record file rec =
     (let file = gzputs file (id_f rec);
          file = gzputs file (seq rec);
          file = gzputs file (plus_f rec);
          file = gzputs file (qual rec)
      in file)"

subsection \<open>The environment of a run\<close>

datatype error = RuntimeError string | NullPointer

datatype sqlite_rc =
  SQLITE_OK | SQLITE_DONE | SQLITE_CONSTRAINT | SQLITE_ERROR | SQLITE_BUSY
  | SQLITE_IOERR | SQLITE_CORRUPT | SQLITE_FULL

text \<open>
  What the environment makes of one call of \<^verbatim>\<open>SQLiteStore::is_unique\<close>: nothing, a
  failure of \<^verbatim>\<open>sqlite3_prepare_v2\<close>, or a failure of \<^verbatim>\<open>sqlite3_step\<close> other than
  the violation of the primary key.
\<close>

datatype step_failure = Error | Busy | IoErr | Corrupt | Full

fun rc_of :: "step_failure \<Rightarrow> sqlite_rc" where
  "rc_of Error = SQLITE_ERROR"
| "rc_of Busy = SQLITE_BUSY"
| "rc_of IoErr = SQLITE_IOERR"
| "rc_of Corrupt = SQLITE_CORRUPT"
| "rc_of Full = SQLITE_FULL"

datatype fault = NoFault | PrepareFails | StepFails step_failure

record sqlite3 =
  hashes :: "string set"
  faults :: "fault list"

text \<open>
  The environment: what the files hold, by path (\<open>None\<close> when the path cannot be opened
  for reading); which pairs of different paths lead to the same file (a link, a relative
  and an absolute path); which paths can be opened for writing; and the database file
  \<^verbatim>\<open>dedup.sqlite\<close>, with the failures that its operations will meet.
\<close>

record env =
  files :: "string \<rightharpoonup> string"
  linked :: "string \<Rightarrow> string \<Rightarrow> bool"
  writable :: "string \<Rightarrow> bool"
  db_open_ok :: bool
  db_hashes :: "string set"
  db_faults :: "fault list"

text \<open>Two paths lead to one file.\<close>

definition one_file :: "env \<Rightarrow> string \<Rightarrow> string \<Rightarrow> bool" where
  "one_file e p q = (p = q \<or> linked e p q \<or> linked e q p)"

text \<open>
  \<^verbatim>\<open>gzopen(path, "rb")\<close> returns NULL when the file cannot be opened. Nothing is read
  before the first \<^verbatim>\<open>gzgets\<close> on the handle.
\<close>

definition gzopen_rb :: "env \<Rightarrow> string \<Rightarrow> string option" where
  "gzopen_rb e path = files e path"

text \<open>
  \<^verbatim>\<open>gzopen(path, "wb")\<close> creates the file or empties it: the result is the handle and
  the environment with the file empty, by whatever path it is reached. A handle that was
  opened for reading on the same file before, and has read nothing yet, will find it
  empty.
\<close>

definition gzopen_wb :: "env \<Rightarrow> string \<Rightarrow> string option \<times> env" where
  "gzopen_wb e path =
     (if writable e path
      then (Some [], e\<lparr>files := (\<lambda>p. if one_file e p path then Some [] else files e p)\<rparr>)
      else (None, e))"

text \<open>
  The bytes that a handle opened for reading on \<open>path\<close> delivers when its first read
  happens in the environment \<open>e\<close>.
\<close>

definition stream :: "env \<Rightarrow> string \<Rightarrow> string" where
  "stream e path = (case files e path of None \<Rightarrow> [] | Some bytes \<Rightarrow> bytes)"

text \<open>
  \<^verbatim>\<open>gzclose\<close> of an output handle: the file holds the bytes written through the handle.
  Closing a NULL handle does nothing.
\<close>

definition gzclose_wb :: "env \<Rightarrow> string \<Rightarrow> string option \<Rightarrow> env" where
  "gzclose_wb e path file =
     (case file of
        None \<Rightarrow> e
      | Some bytes \<Rightarrow> e\<lparr>files := (\<lambda>p. if one_file e p path then Some bytes else files e p)\<rparr>)"

subsection \<open>Count number of fastq records\<close>

function count_lines :: "string \<Rightarrow> 64 word \<Rightarrow> 64 word" where
  "count_lines f lines =
     (case gzgets f 8192 of
        None \<Rightarrow> lines
      | Some (buf, f') \<Rightarrow> count_lines f' (lines + 1))"
  by pat_completeness auto
definition count_fastq_records :: "env \<Rightarrow> string \<Rightarrow> error + 64 word" where
  "count_fastq_records e filename =
     (case gzopen_rb e filename of
        None \<Rightarrow> Inl (RuntimeError (''Cannot open file: '' @ filename))
      | Some f \<Rightarrow> Inr (count_lines f 0 div 4))"

subsection \<open>Extract barcode from FASTQ header\<close>

text \<open>\<^verbatim>\<open>std::string::find\<close> and \<^verbatim>\<open>rfind\<close> of a character; \<open>None\<close> is \<^verbatim>\<open>npos\<close>.\<close>

fun find_char :: "char \<Rightarrow> string \<Rightarrow> nat option" where
  "find_char c [] = None"
| "find_char c (x # xs) =
     (if x = c then Some 0 else map_option Suc (find_char c xs))"

fun rfind_char :: "char \<Rightarrow> string \<Rightarrow> nat option" where
  "rfind_char c [] = None"
| "rfind_char c (x # xs) =
     (case rfind_char c xs of
        Some i \<Rightarrow> Some (Suc i)
      | None \<Rightarrow> if x = c then Some 0 else None)"

definition extract_barcode_from_name :: "string \<Rightarrow> string" where
  "extract_barcode_from_name header =
     (let space_pos = find_char (CHR '' '') header;
          main_part = (case space_pos of None \<Rightarrow> header | Some p \<Rightarrow> take p header);
          last_colon = rfind_char (CHR '':'') main_part
      in case last_colon of
           None \<Rightarrow> []
         | Some p \<Rightarrow> drop (p + 1) main_part)"

subsection \<open>SQLite backend\<close>

definition SQLiteStore_new :: "env \<Rightarrow> error + sqlite3" where
  "SQLiteStore_new e =
     (if db_open_ok e then Inr \<lparr>hashes = db_hashes e, faults = db_faults e\<rparr>
      else Inl (RuntimeError ''Cannot open SQLite DB''))"

definition next_fault :: "sqlite3 \<Rightarrow> fault" where
  "next_fault db = (case faults db of [] \<Rightarrow> NoFault | x # xs \<Rightarrow> x)"

definition sqlite3_prepare_v2 :: "sqlite3 \<Rightarrow> sqlite_rc" where
  "sqlite3_prepare_v2 db = (if next_fault db = PrepareFails then SQLITE_ERROR else SQLITE_OK)"

text \<open>
  One step of \<^verbatim>\<open>INSERT INTO hashes (hash) VALUES (?)\<close> on a table whose column
  \<^verbatim>\<open>hash\<close> is the primary key.
\<close>

definition sqlite3_step :: "sqlite3 \<Rightarrow> string \<Rightarrow> sqlite_rc \<times> sqlite3" where
  "sqlite3_step db text =
     (case next_fault db of
        StepFails x \<Rightarrow> (rc_of x, db)
      | _ \<Rightarrow> if text \<in> hashes db then (SQLITE_CONSTRAINT, db)
             else (SQLITE_DONE, db\<lparr>hashes := insert text (hashes db)\<rparr>))"

definition is_unique :: "sqlite3 \<Rightarrow> string \<Rightarrow> error + (bool \<times> sqlite3)" where
  "is_unique db key =
     (if sqlite3_prepare_v2 db \<noteq> SQLITE_OK then Inl (RuntimeError ''SQLite prepare failed'')
      else
        let (rc, db) = sqlite3_step db (c_string key);
            unique = True;
            unique = (if rc \<noteq> SQLITE_DONE then False else unique);
            db = db\<lparr>faults := tl (faults db)\<rparr>
        in Inr (unique, db))"

subsection \<open>Bloom filter backend\<close>

text \<open>
  \<^verbatim>\<open>bloom_filter.hpp\<close> is a header-only library. Of \<^verbatim>\<open>bloom_parameters\<close> the program
  sets two members; the others (the bounds, the seed and the optimal parameters that
  \<^verbatim>\<open>compute_optimal_parameters\<close> fills in) are the extension of the record. The
  \<^verbatim>\<open>double\<close> literal \<^verbatim>\<open>0.001\<close> is kept as the rational number it denotes.
\<close>

record bloom_parameters =
  projected_element_count :: "64 word"
  false_positive_probability :: rat

record ('p, 'bf) bloom_lib =
  bloom_parameters_new :: "'p bloom_parameters_scheme"
  compute_optimal_parameters :: "'p bloom_parameters_scheme \<Rightarrow> 'p bloom_parameters_scheme"
  bloom_filter_new :: "'p bloom_parameters_scheme \<Rightarrow> 'bf"
  contains :: "'bf \<Rightarrow> string \<Rightarrow> bool"
  insert_bf :: "'bf \<Rightarrow> string \<Rightarrow> 'bf"

subsection \<open>Main\<close>

text \<open>The variables that option parsing sets.\<close>

datatype backend = Memory | Bloom | Sqlite

record config =
  read1_file :: string
  read2_file :: string
  index_file :: string
  barcode_in_name :: bool
  backend :: backend

text \<open>
  The variables of \<^verbatim>\<open>main\<close> that the processing loop reads and writes. \<open>f1\<close>, \<open>f2\<close>
  and \<open>f3\<close> are the bytes still to be read (\<open>f3\<close> is read only when an index file is
  given); \<open>sqlite_store\<close> and \<open>bloom\<close> are \<open>None\<close> for a null pointer.
\<close>

record 'bf state =
  f1 :: string
  f2 :: string
  f3 :: string
  out1 :: "string option"
  out2 :: "string option"
  sqlite_store :: "sqlite3 option"
  bloom :: "'bf option"
  seen :: "string set"
  r1 :: FastqRecord
  r2 :: FastqRecord
  r3 :: FastqRecord
  processed :: "64 word"
  dup :: "64 word"
  written :: "64 word"

text \<open>Lines 211 to 221: the key of the pair in \<open>r1\<close> and \<open>r2\<close>.\<close>

definition fingerprint ::
  "(string \<Rightarrow> 8 word list) \<Rightarrow> config \<Rightarrow> 'bf state \<Rightarrow> string \<times> 'bf state" where
  "fingerprint SHA256 cfg s =
     (let key = [];
          key = (if barcode_in_name cfg
                 then (let barcode = extract_barcode_from_name (id_f (r1 s))
                       in sha256 SHA256 (barcode @ seq (r1 s) @ seq (r2 s)))
                 else key)
      in if index_file cfg \<noteq> []
         then (case read_fastq_record (f3 s) (r3 s) of
                 (ok, file, rec) \<Rightarrow>
                   let s = s\<lparr>f3 := file, r3 := rec\<rparr>
                   in (sha256 SHA256 (seq (r3 s) @ seq (r1 s) @ seq (r2 s)), s))
         else (sha256 SHA256 (seq (r1 s) @ seq (r2 s)), s))"

text \<open>Lines 223 to 232: the query of the store selected by \<open>backend\<close>.\<close>

definition query_store ::
  "('p, 'bf) bloom_lib \<Rightarrow> config \<Rightarrow> 'bf state \<Rightarrow> string \<Rightarrow> error + (bool \<times> 'bf state)" where
  "query_store lib cfg s key =
     (let unique = True in
      if backend cfg = Memory then
        (if key \<in> seen s then Inr (False, s)
         else Inr (unique, s\<lparr>seen := insert key (seen s)\<rparr>))
      else if backend cfg = Sqlite then
        (case sqlite_store s of
           None \<Rightarrow> Inl NullPointer
         | Some db \<Rightarrow>
             (case is_unique db key of
                Inl err \<Rightarrow> Inl err
              | Inr (u, db) \<Rightarrow> Inr (u, s\<lparr>sqlite_store := Some db\<rparr>)))
      else if backend cfg = Bloom then
        (case bloom s of
           None \<Rightarrow> Inl NullPointer
         | Some b \<Rightarrow>
             if contains lib b key then Inr (False, s)
             else Inr (unique, s\<lparr>bloom := Some (insert_bf lib b key)\<rparr>))
      else Inr (unique, s))"

text \<open>
  What one pass through the loop leaves to be observed: the key of the pair, the answer
  of the store, and the variables after \<^verbatim>\<open>processed++\<close>.
\<close>

record 'bf obs =
  key :: string
  unique :: bool
  after :: "'bf state"

datatype 'bf step = Stop "'bf state" | Throw error | Continue "'bf obs"

text \<open>
  The loop condition (line 210, with the short-circuit of \<^verbatim>\<open>&&\<close>) and the loop body
  (lines 211 to 242).
\<close>

definition loop_body ::
  "('p, 'bf) bloom_lib \<Rightarrow> (string \<Rightarrow> 8 word list) \<Rightarrow> config \<Rightarrow> 'bf state \<Rightarrow> 'bf step" where
  "loop_body lib SHA256 cfg s =
     (case read_fastq_record (f1 s) (r1 s) of (ok1, file1, rec1) \<Rightarrow>
      let s = s\<lparr>f1 := file1, r1 := rec1\<rparr> in
      if \<not> ok1 then Stop s
      else
     (case read_fastq_record (f2 s) (r2 s) of (ok2, file2, rec2) \<Rightarrow>
      let s = s\<lparr>f2 := file2, r2 := rec2\<rparr> in
      if \<not> ok2 then Stop s
      else
     (case fingerprint SHA256 cfg s of (k, s) \<Rightarrow>
     (case query_store lib cfg s k of
        Inl err \<Rightarrow> Throw err
      | Inr (u, s) \<Rightarrow>
          let s = (if u
                   then s\<lparr>out1 := write_fastq_record (out1 s) (r1 s),
                          out2 := write_fastq_record (out2 s) (r2 s),
                          written := written s + 1\<rparr>
                   else s\<lparr>dup := dup s + 1\<rparr>);
              s = s\<lparr>processed := processed s + 1\<rparr>
          in Continue \<lparr>key = k, unique = u, after = s\<rparr>))))"

text \<open>
  The loop: the observations of its passes, in order, and how it ends, with the
  variables at the exit or with the exception that left it.
\<close>

function main_loop ::
  "('p, 'bf) bloom_lib \<Rightarrow> (string \<Rightarrow> 8 word list) \<Rightarrow> config \<Rightarrow> 'bf state
     \<Rightarrow> 'bf obs list \<times> (error + 'bf state)" where
  "main_loop lib SHA256 cfg s =
     (case loop_body lib SHA256 cfg s of
        Stop s' \<Rightarrow> ([], Inr s')
      | Throw err \<Rightarrow> ([], Inl err)
      | Continue ob \<Rightarrow>
          (case main_loop lib SHA256 cfg (after ob) of
             (tr, res) \<Rightarrow> (ob # tr, res)))"
  by pat_completeness auto

text \<open>\<^verbatim>\<open>std::filesystem::path(p).filename()\<close>: what follows the last separator.\<close>

definition filename :: "string \<Rightarrow> string" where
  "filename p = (case rfind_char (CHR ''/'') p of None \<Rightarrow> p | Some i \<Rightarrow> drop (i + 1) p)"

text \<open>Lines 191 to 204: the two pointers after the initialisation of the backend.\<close>

definition backend_init ::
  "('p, 'bf) bloom_lib \<Rightarrow> config \<Rightarrow> env \<Rightarrow> 64 word \<Rightarrow> error + (sqlite3 option \<times> 'bf option)" where
  "backend_init lib cfg e total_reads =
     (if backend cfg = Sqlite then
        (case SQLiteStore_new e of
           Inl err \<Rightarrow> Inl err
         | Inr db \<Rightarrow> Inr (Some db, None))
      else if backend cfg = Bloom then
        (let params = bloom_parameters_new lib;
             params = params\<lparr>projected_element_count := total_reads\<rparr>;
             params = params\<lparr>false_positive_probability := 1 / 1000\<rparr>;
             params = compute_optimal_parameters lib params
         in Inr (None, Some (bloom_filter_new lib params)))
      else Inr (None, None))"

text \<open>
  The variables when the loop is entered: the handles that were opened, the pointers to
  the backend, an empty \<^verbatim>\<open>seen\<close>, three default-constructed records and the counters
  at zero (lines 167 to 208).
\<close>

definition start_state ::
  "string \<Rightarrow> string \<Rightarrow> string \<Rightarrow> string option \<Rightarrow> string option \<Rightarrow> sqlite3 option
     \<Rightarrow> 'bf option \<Rightarrow> 'bf state" where
  "start_state file1 file2 file3 o1 o2 store bf =
     \<lparr>f1 = file1, f2 = file2, f3 = file3, out1 = o1, out2 = o2,
      sqlite_store = store, bloom = bf, seen = {},
      r1 = FastqRecord_new, r2 = FastqRecord_new, r3 = FastqRecord_new,
      processed = 0, dup = 0, written = 0\<rparr>"

text \<open>
  How the process ends: \<^verbatim>\<open>main\<close> returns a code, or an exception nobody catches
  terminates it abnormally.
\<close>

datatype exit_status = Exit nat | Uncaught error

text \<open>Lines 183 to 187: the names of the two output files, in the working directory.\<close>

definition out1_name :: "config \<Rightarrow> string" where
  "out1_name cfg = ''nodup_'' @ filename (read1_file cfg)"

definition out2_name :: "config \<Rightarrow> string" where
  "out2_name cfg = ''nodup_'' @ filename (read2_file cfg)"

text \<open>
  \<^verbatim>\<open>main\<close> from line 156 on. The result is how the process ends, the observations of
  the processing loop and, when the loop was left normally, the variables at its exit.

  The input handles are opened before the output handles (lines 167 to 189) and first
  read in the loop, after them; in the loop nothing is written before each of the three
  has been read once, and a handle that has met the end of its file delivers nothing
  later. So the loop starts with the streams as the files are once both outputs are open:
  an input file that is also an output file is read as an empty stream.
\<close>

definition main ::
  "('p, 'bf) bloom_lib \<Rightarrow> (string \<Rightarrow> 8 word list) \<Rightarrow> config \<Rightarrow> env
     \<Rightarrow> exit_status \<times> 'bf obs list \<times> 'bf state option" where
  "main lib SHA256 cfg e =
     (if read1_file cfg = [] \<or> read2_file cfg = [] then (Exit 1, [], None)
      else
     (case count_fastq_records e (read1_file cfg) of
        Inl err \<Rightarrow> (Uncaught err, [], None)
      | Inr total_reads \<Rightarrow>
     (case gzopen_rb e (read1_file cfg) of
        None \<Rightarrow> (Exit 1, [], None)
      | Some file1 \<Rightarrow>
     (case gzopen_rb e (read2_file cfg) of
        None \<Rightarrow> (Exit 1, [], None)
      | Some file2 \<Rightarrow>
     (case (if index_file cfg \<noteq> [] then gzopen_rb e (index_file cfg) else Some []) of
        None \<Rightarrow> (Exit 1, [], None)
      | Some file3 \<Rightarrow>
     (case gzopen_wb e (out1_name cfg) of (o1, e) \<Rightarrow>
     (case gzopen_wb e (out2_name cfg) of (o2, e) \<Rightarrow>
     (case backend_init lib cfg e total_reads of
        Inl err \<Rightarrow> (Uncaught err, [], None)
      | Inr (store, bf) \<Rightarrow>
     (let file1 = stream e (read1_file cfg);
          file2 = stream e (read2_file cfg);
          file3 = (if index_file cfg \<noteq> [] then stream e (index_file cfg) else [])
      in case main_loop lib SHA256 cfg (start_state file1 file2 file3 o1 o2 store bf) of
           (tr, Inl err) \<Rightarrow> (Uncaught err, tr, None)
         | (tr, Inr s) \<Rightarrow> (Exit 0, tr, Some s))))))))))"

text \<open>The environment when the loop starts: both outputs have been opened.\<close>

definition opened :: "env \<Rightarrow> config \<Rightarrow> env" where
  "opened e cfg = snd (gzopen_wb (snd (gzopen_wb e (out1_name cfg))) (out2_name cfg))"

text \<open>
  Lines 253 to 255: the files when \<^verbatim>\<open>main\<close> has returned, from the variables at the
  exit of the loop. When both output handles are open on one file, each writes from the
  beginning of the file with its own position; what the file holds then depends on the
  sizes of the compressed blocks, of which the model knows nothing (\<open>None\<close>).
\<close>

definition files_after :: "env \<Rightarrow> config \<Rightarrow> 'bf state \<Rightarrow> (string \<rightharpoonup> string) option" where
  "files_after e cfg s =
     (if one_file e (out1_name cfg) (out2_name cfg) \<and> out1 s \<noteq> None then None
      else
        let e = opened e cfg;
            e = gzclose_wb e (out1_name cfg) (out1 s);
            e = gzclose_wb e (out2_name cfg) (out2 s)
        in Some (files e))"

subsection \<open>The standard error channel\<close>

text \<open>
  The messages that \<^verbatim>\<open>main\<close> prints, each with the numbers it shows. What the runtime
  prints when an exception is not caught is not part of them.
\<close>

datatype message =
    MustProvide
  | CountingReads string
  | TotalReads "64 word"
  | ErrorOpeningInput
  | ErrorOpeningIndex
  | Progress "64 word" "64 word" "64 word"
  | Done
  | Processed "64 word"
  | Written "64 word"
  | Duplicates "64 word"

text \<open>Lines 243 to 249, after \<^verbatim>\<open>processed++\<close>: one pass in 100000 reports the progress.\<close>

definition progress :: "64 word \<Rightarrow> 'bf state \<Rightarrow> message list" where
  "progress total_reads s =
     (if processed s mod 100000 = 0 then [Progress (processed s) total_reads (dup s)] else [])"

text \<open>Lines 259 to 262.\<close>

definition summary :: "'bf state \<Rightarrow> message list" where
  "summary s = [Done, Processed (processed s), Written (written s), Duplicates (dup s)]"

text \<open>All that a run prints, in order: the branches are those of \<^verbatim>\<open>main\<close>.\<close>

definition cerr ::
  "('p, 'bf) bloom_lib \<Rightarrow> (string \<Rightarrow> 8 word list) \<Rightarrow> config \<Rightarrow> env \<Rightarrow> message list" where
  "cerr lib SHA256 cfg e =
     (if read1_file cfg = [] \<or> read2_file cfg = [] then [MustProvide]
      else CountingReads (read1_file cfg) #
     (case count_fastq_records e (read1_file cfg) of
        Inl err \<Rightarrow> []
      | Inr total_reads \<Rightarrow> TotalReads total_reads #
     (if gzopen_rb e (read1_file cfg) = None \<or> gzopen_rb e (read2_file cfg) = None
      then [ErrorOpeningInput]
      else if index_file cfg \<noteq> [] \<and> gzopen_rb e (index_file cfg) = None
      then [ErrorOpeningIndex]
      else (case main lib SHA256 cfg e of
              (ex, tr, fin) \<Rightarrow>
                concat (map (\<lambda>ob. progress total_reads (after ob)) tr) @
                (case fin of None \<Rightarrow> [] | Some s \<Rightarrow> summary s)))))"

subsection \<open>Notions the properties are stated with\<close>

text \<open>The lines of a stream, as successive calls of \<^verbatim>\<open>gzgets\<close> with a buffer of \<open>len\<close> bytes deliver them.\<close>

function gz_lines :: "nat \<Rightarrow> string \<Rightarrow> string list" where
  "gz_lines len f =
     (if len < 2 then []
      else case gzgets f len of
             None \<Rightarrow> []
           | Some (buf, rest) \<Rightarrow> buf # gz_lines len rest)"
  by pat_completeness auto

text \<open>The complete quartets of a stream, as \<^verbatim>\<open>read_fastq_record\<close> sees its lines.\<close>

definition quartets :: "string \<Rightarrow> nat" where
  "quartets f = length (gz_lines 10000 f) div 4"

text \<open>The records that successive calls of \<^verbatim>\<open>read_fastq_record\<close> deliver until one fails.\<close>

function records :: "string \<Rightarrow> FastqRecord list" where
  "records f =
     (case read_fastq_record f FastqRecord_new of
        (ok, rest, rec) \<Rightarrow> if ok then rec # records rest else [])"
  by pat_completeness auto

text \<open>The pair of records that a pass has processed.\<close>

definition pair_of :: "'bf obs \<Rightarrow> FastqRecord \<times> FastqRecord" where
  "pair_of ob = (r1 (after ob), r2 (after ob))"

text \<open>The store of a state cannot throw: it is not the SQLite store, or no failure to prepare a statement is scheduled.\<close>

definition no_throw :: "config \<Rightarrow> 'bf state \<Rightarrow> bool" where
  "no_throw cfg s =
     (case backend cfg of
        Memory \<Rightarrow> True
      | Bloom \<Rightarrow> bloom s \<noteq> None
      | Sqlite \<Rightarrow> (case sqlite_store s of
                     None \<Rightarrow> False
                   | Some db \<Rightarrow> PrepareFails \<notin> set (faults db)))"

text \<open>The filter that lines 199 to 203 construct from the count of the pre-scan.\<close>

definition bloom_for :: "('p, 'bf) bloom_lib \<Rightarrow> 64 word \<Rightarrow> 'bf" where
  "bloom_for lib n =
     bloom_filter_new lib
       (compute_optimal_parameters lib
          ((bloom_parameters_new lib)
             \<lparr>projected_element_count := n, false_positive_probability := 1 / 1000\<rparr>))"

text \<open>The index record as the next read of the index stream leaves it.\<close>

definition index_record_left :: "'bf state \<Rightarrow> FastqRecord" where
  "index_record_left s = snd (snd (read_fastq_record (f3 s) (r3 s)))"

text \<open>
  Two configurations select the same way of deriving the key; two states hold the same
  input streams and records.
\<close>

definition same_mode :: "config \<Rightarrow> config \<Rightarrow> bool" where
  "same_mode cfg cfg' =
     (barcode_in_name cfg = barcode_in_name cfg' \<and> (index_file cfg = []) = (index_file cfg' = []))"

definition same_inputs :: "'a state \<Rightarrow> 'b state \<Rightarrow> bool" where
  "same_inputs s s' =
     (f1 s = f1 s' \<and> f2 s = f2 s' \<and> f3 s = f3 s' \<and> r1 s = r1 s' \<and> r2 s = r2 s' \<and> r3 s = r3 s')"

text \<open>
  The hexadecimal rendering of a byte string: two digits for each byte, the high one
  first, the digits above nine in lower case.
\<close>

definition hex_char :: "nat \<Rightarrow> char" where
  "hex_char n = (if n < 10 then char_of (48 + n) else char_of (87 + n))"

definition hex_of :: "8 word list \<Rightarrow> string" where
  "hex_of bytes = concat (map (\<lambda>b. [hex_char (unat b div 16), hex_char (unat b mod 16)]) bytes)"

text \<open>The value of a hexadecimal digit.\<close>

definition hex_val :: "char \<Rightarrow> nat" where
  "hex_val c = (if of_char c < (97::nat) then of_char c - 48 else of_char c - 87)"

text \<open>Neither of the two read files is one of the two output files.\<close>

definition inputs_kept :: "config \<Rightarrow> env \<Rightarrow> bool" where
  "inputs_kept cfg e =
     (\<not> one_file e (read1_file cfg) (out1_name cfg) \<and>
      \<not> one_file e (read1_file cfg) (out2_name cfg) \<and>
      \<not> one_file e (read2_file cfg) (out1_name cfg) \<and>
      \<not> one_file e (read2_file cfg) (out2_name cfg))"



text \<open>What an exact store answers to a list of keys, when it starts with the set \<open>S\<close>.\<close>

fun first_seen :: "string set \<Rightarrow> string list \<Rightarrow> bool list" where
  "first_seen S [] = []"
| "first_seen S (k # ks) = (k \<notin> S) # first_seen (insert k S) ks"

text \<open>The items of a list whose key was not met before, in \<open>S\<close> or earlier in the list.\<close>

fun dedup :: "('a \<Rightarrow> string) \<Rightarrow> string set \<Rightarrow> 'a list \<Rightarrow> 'a list" where
  "dedup kf S [] = []"
| "dedup kf S (p # ps) =
     (if kf p \<in> S then dedup kf S ps else p # dedup kf (insert (kf p) S) ps)"

text \<open>The keys that the set or the table of the selected backend holds.\<close>

definition store_keys :: "config \<Rightarrow> 'bf state \<Rightarrow> string set" where
  "store_keys cfg s =
     (if backend cfg = Memory then seen s
      else case sqlite_store s of None \<Rightarrow> {} | Some db \<Rightarrow> hashes db)"



text \<open>What \<open>write_fastq_record\<close> appends for a record whose fields hold no NUL.\<close>

definition render :: "FastqRecord \<Rightarrow> string" where
  "render r = id_f r @ seq r @ plus_f r @ qual r"

text \<open>
  A record is read back from its own bytes, whatever follows them (\<open>closed_rec\<close>) or
  when nothing follows them (\<open>last_rec\<close>); in a readable list every record but the last
  is of the first kind.
\<close>

definition closed_rec :: "FastqRecord \<Rightarrow> bool" where
  "closed_rec r = (\<forall>rest rec. read_fastq_record (render r @ rest) rec = (True, rest, r))"

definition last_rec :: "FastqRecord \<Rightarrow> bool" where
  "last_rec r = (\<forall>rec. read_fastq_record (render r) rec = (True, [], r))"

fun readable :: "FastqRecord list \<Rightarrow> bool" where
  "readable [] = True"
| "readable (r # rs) = ((if rs = [] then last_rec r else closed_rec r) \<and> readable rs)"

text \<open>One state has counters no greater than another (unsigned comparison).\<close>

definition stats_le :: "'bf state \<Rightarrow> 'bf state \<Rightarrow> bool" where
  "stats_le s t = (processed s \<le> processed t \<and> written s \<le> written t \<and> dup s \<le> dup t)"

text \<open>
  The states a run lets one observe, in order: after each processed pair and, when the
  loop is left normally, at its exit.
\<close>

definition observed :: "'bf obs list \<Rightarrow> 'bf state option \<Rightarrow> 'bf state list" where
  "observed tr fin = map after tr @ (case fin of None \<Rightarrow> [] | Some s \<Rightarrow> [s])"

subsection \<open>Stand-ins for the examples\<close>

text \<open>
  The examples need a digest and a filter to run with. \<open>bytes_digest\<close> returns the
  bytes of the data, so that distinct data have distinct digests, as is taken for granted
  of SHA-256. \<open>set_filter\<close> is a filter without false positives.
\<close>

definition bytes_digest :: "string \<Rightarrow> 8 word list" where
  "bytes_digest data = map of_char data"

definition set_filter :: "(unit, string set) bloom_lib" where
  "set_filter =
     \<lparr>bloom_parameters_new = \<lparr>projected_element_count = 0, false_positive_probability = 0\<rparr>,
      compute_optimal_parameters = (\<lambda>p. p),
      bloom_filter_new = (\<lambda>p. {}),
      contains = (\<lambda>b k. k \<in> b),
      insert_bf = (\<lambda>b k. insert k b)\<rparr>"

text \<open>
  An environment with the given readable files, each reached by one path only, where
  everything else succeeds.
\<close>

definition env_of :: "(string \<rightharpoonup> string) \<Rightarrow> env" where
  "env_of fs =
     \<lparr>files = fs, linked = (\<lambda>p q. False), writable = (\<lambda>p. True),
      db_open_ok = True, db_hashes = {}, db_faults = []\<rparr>"

text \<open>Two pairs with the same sequences and different barcodes in the names of read 1.\<close>

definition two_barcodes :: env where
  "two_barcodes = env_of
     [''R1.fq'' \<mapsto> ''@r:AA 1\<newline>AC\<newline>+\<newline>II\<newline>@r:CC 1\<newline>AC\<newline>+\<newline>II\<newline>'',
      ''R2.fq'' \<mapsto> ''@r:AA 2\<newline>GT\<newline>+\<newline>II\<newline>@r:CC 2\<newline>GT\<newline>+\<newline>II\<newline>'']"

text \<open>One pair.\<close>

definition one_pair :: env where
  "one_pair = env_of
     [''R1.fq'' \<mapsto> ''@r1\<newline>AC\<newline>+\<newline>II\<newline>'',
      ''R2.fq'' \<mapsto> ''@r1\<newline>GT\<newline>+\<newline>II\<newline>'']"

definition config_of :: "string \<Rightarrow> bool \<Rightarrow> backend \<Rightarrow> config" where
  "config_of index b be =
     \<lparr>read1_file = ''R1.fq'', read2_file = ''R2.fq'', index_file = index,
      barcode_in_name = b, backend = be\<rparr>"

text \<open>A first read stream of ten quartets and a second of eight.\<close>

definition ten_quartets :: string where
  "ten_quartets = ''@a0\<newline>A\<newline>+\<newline>I\<newline>@a1\<newline>A\<newline>+\<newline>I\<newline>@a2\<newline>A\<newline>+\<newline>I\<newline>@a3\<newline>A\<newline>+\<newline>I\<newline>@a4\<newline>A\<newline>+\<newline>I\<newline>@a5\<newline>A\<newline>+\<newline>I\<newline>@a6\<newline>A\<newline>+\<newline>I\<newline>@a7\<newline>A\<newline>+\<newline>I\<newline>@a8\<newline>A\<newline>+\<newline>I\<newline>@a9\<newline>A\<newline>+\<newline>I\<newline>''"

definition eight_quartets :: string where
  "eight_quartets = ''@b0\<newline>C\<newline>+\<newline>I\<newline>@b1\<newline>C\<newline>+\<newline>I\<newline>@b2\<newline>C\<newline>+\<newline>I\<newline>@b3\<newline>C\<newline>+\<newline>I\<newline>@b4\<newline>C\<newline>+\<newline>I\<newline>@b5\<newline>C\<newline>+\<newline>I\<newline>@b6\<newline>C\<newline>+\<newline>I\<newline>@b7\<newline>C\<newline>+\<newline>I\<newline>''"

definition ten_and_eight :: env where
  "ten_and_eight = env_of [''R1.fq'' \<mapsto> ten_quartets, ''R2.fq'' \<mapsto> eight_quartets]"

text \<open>
  Two pairs with the same sequences, and an index stream that ends after the first two
  lines of its second record.
\<close>

definition index_cut_short :: env where
  "index_cut_short = env_of
     [''R1.fq'' \<mapsto> ''@r1\<newline>AC\<newline>+\<newline>II\<newline>@r2\<newline>AC\<newline>+\<newline>II\<newline>'',
      ''R2.fq'' \<mapsto> ''@r1\<newline>GT\<newline>+\<newline>II\<newline>@r2\<newline>GT\<newline>+\<newline>II\<newline>'',
      ''I.fq'' \<mapsto> ''@i1\<newline>AA\<newline>+\<newline>II\<newline>@i2\<newline>CC\<newline>'']"




text \<open>
  One pair, with a second read file that bears the name of the first output file, or
  whose path leads to the file of that name; and two pairs in files of the same name in
  two directories.
\<close>

definition second_input_is_output :: env where
  "second_input_is_output = env_of
     [''R1.fq'' \<mapsto> ''@r1\<newline>AC\<newline>+\<newline>II\<newline>'',
      ''nodup_R1.fq'' \<mapsto> ''@r1\<newline>GT\<newline>+\<newline>II\<newline>'']"

definition second_input_linked :: env where
  "second_input_linked =
     (env_of
        [''R1.fq'' \<mapsto> ''@r1\<newline>AC\<newline>+\<newline>II\<newline>'',
         ''./nodup_R1.fq'' \<mapsto> ''@r1\<newline>GT\<newline>+\<newline>II\<newline>''])
     \<lparr>linked := (\<lambda>p q. p = ''./nodup_R1.fq'' \<and> q = ''nodup_R1.fq'')\<rparr>"

definition same_base_names :: env where
  "same_base_names = env_of
     [''a/R.fq'' \<mapsto> ''@r1\<newline>AC\<newline>+\<newline>II\<newline>@r2\<newline>CA\<newline>+\<newline>II\<newline>'',
      ''b/R.fq'' \<mapsto> ''@r1\<newline>GT\<newline>+\<newline>II\<newline>@r2\<newline>TG\<newline>+\<newline>II\<newline>'']"

text \<open>
  Two records of reads long enough to fill the buffer of the pre-scan: sequences and
  qualities of 8191 bytes, followed by the newline.
\<close>

definition long_line :: "char \<Rightarrow> string" where
  "long_line c = replicate 8191 c"

definition long_reads :: string where
  "long_reads =
     ''@r1\<newline>'' @ long_line (CHR ''A'') @ ''\<newline>+\<newline>'' @ long_line (CHR ''I'') @ ''\<newline>'' @
     ''@r2\<newline>'' @ long_line (CHR ''C'') @ ''\<newline>+\<newline>'' @ long_line (CHR ''I'') @ ''\<newline>''"

definition long_pairs :: env where
  "long_pairs = env_of [''R1.fq'' \<mapsto> long_reads, ''R2.fq'' \<mapsto> long_reads]"

section \<open>Termination\<close>

lemma gets_chunk_length:
  "gets_chunk n f = (buf, rest) \<Longrightarrow> length buf + length rest = length f"
  by (induction n f arbitrary: buf rest rule: gets_chunk.induct)
     (auto split: if_splits prod.splits)

lemma gets_chunk_nonempty:
  "gets_chunk n f = (buf, rest) \<Longrightarrow> 0 < n \<Longrightarrow> f \<noteq> [] \<Longrightarrow> buf \<noteq> []"
  by (cases f) (auto split: if_splits prod.splits)

lemma gzgets_shorter:
  "gzgets f len = Some (buf, rest) \<Longrightarrow> 2 \<le> len \<Longrightarrow> length rest < length f"
proof -
  assume a: "gzgets f len = Some (buf, rest)" and l: "2 \<le> len"
  from a have ne: "f \<noteq> []" and g: "gets_chunk (len - 1) f = (buf, rest)"
    by (auto simp: gzgets_def split: if_splits)
  from gets_chunk_nonempty [OF g _ ne] l have "buf \<noteq> []" by simp
  with gets_chunk_length [OF g] show ?thesis by (cases buf) auto
qed

termination count_lines
  by (relation "measure (\<lambda>(f, lines). length f)") (auto dest: gzgets_shorter)

lemma read_fastq_record_shorter:
  "read_fastq_record f rec = (True, rest, rec') \<Longrightarrow> length rest < length f"
  unfolding read_fastq_record_def
  by (auto simp: Let_def split: option.splits dest!: gzgets_shorter)

lemma fingerprint_f1: "fingerprint SHA256 cfg s = (k, s') \<Longrightarrow> f1 s' = f1 s"
  by (auto simp: fingerprint_def Let_def split: if_splits prod.splits)

lemma query_store_f1: "query_store lib cfg s k = Inr (u, s') \<Longrightarrow> f1 s' = f1 s"
  by (auto simp: query_store_def Let_def split: if_splits option.splits sum.splits)

lemma loop_body_shorter:
  "loop_body lib SHA256 cfg s = Continue ob \<Longrightarrow> length (f1 (after ob)) < length (f1 s)"
  unfolding loop_body_def
  by (auto simp: Let_def split: prod.splits if_splits sum.splits
           dest!: read_fastq_record_shorter fingerprint_f1 query_store_f1)

termination main_loop
  by (relation "measure (\<lambda>(lib, SHA256, cfg, s). length (f1 s))")
     (auto dest: loop_body_shorter)

termination gz_lines
  by (relation "measure (\<lambda>(len, f). length f)") (auto dest: gzgets_shorter)

termination records
  by (relation "measure length") (auto dest: read_fastq_record_shorter [OF sym])

section \<open>Basic facts\<close>

declare main_loop.simps [simp del]
declare gz_lines.simps [simp del]
declare records.simps [simp del]
declare count_lines.simps [simp del]

lemmas run_defs =
  main_def count_fastq_records_def gzopen_rb_def gzopen_wb_def filename_def backend_init_def
  out1_name_def out2_name_def stream_def one_file_def
  start_state_def loop_body_def read_fastq_record_def gzgets_def newline_def NUL_def
  c_string_def fingerprint_def query_store_def write_fastq_record_def gzputs_def
  FastqRecord_new_def Let_def extract_barcode_from_name_def main_loop.simps count_lines.simps
  is_unique_def sqlite3_step_def sqlite3_prepare_v2_def next_fault_def SQLiteStore_new_def
  sha256_def bytes_digest_def sprintf_02x_def hex_digit_def set_filter_def env_of_def
  config_of_def observed_def

lemma main_loop_Stop:
  "loop_body lib SHA256 cfg s = Stop s' \<Longrightarrow> main_loop lib SHA256 cfg s = ([], Inr s')"
  by (simp add: main_loop.simps)

lemma main_loop_Throw:
  "loop_body lib SHA256 cfg s = Throw err \<Longrightarrow> main_loop lib SHA256 cfg s = ([], Inl err)"
  by (simp add: main_loop.simps)

lemma main_loop_Continue:
  "loop_body lib SHA256 cfg s = Continue ob \<Longrightarrow>
     main_loop lib SHA256 cfg s =
       (ob # fst (main_loop lib SHA256 cfg (after ob)), snd (main_loop lib SHA256 cfg (after ob)))"
  by (simp add: main_loop.simps split: prod.splits)

subsection \<open>Opening the outputs\<close>

lemma gzopen_wb_fst: "fst (gzopen_wb e p) = (if writable e p then Some [] else None)"
  by (simp add: gzopen_wb_def)

lemma gzopen_wb_snd [simp]:
  "writable (snd (gzopen_wb e p)) = writable e"
  "linked (snd (gzopen_wb e p)) = linked e"
  "db_open_ok (snd (gzopen_wb e p)) = db_open_ok e"
  "db_hashes (snd (gzopen_wb e p)) = db_hashes e"
  "db_faults (snd (gzopen_wb e p)) = db_faults e"
  "files (snd (gzopen_wb e p)) q =
     (if writable e p \<and> one_file e q p then Some [] else files e q)"
  by (simp_all add: gzopen_wb_def)

lemma one_file_gzopen_wb [simp]: "one_file (snd (gzopen_wb e p)) = one_file e"
  by (simp add: one_file_def fun_eq_iff)

lemma one_file_refl [simp]: "one_file e p p"
  by (simp add: one_file_def)

lemma backend_init_env:
  "db_open_ok e' = db_open_ok e \<Longrightarrow> db_hashes e' = db_hashes e \<Longrightarrow> db_faults e' = db_faults e
     \<Longrightarrow> backend_init lib cfg e' n = backend_init lib cfg e n"
  by (simp add: backend_init_def SQLiteStore_new_def)

lemma opened_fields [simp]:
  "writable (opened e cfg) = writable e"
  "linked (opened e cfg) = linked e"
  "db_open_ok (opened e cfg) = db_open_ok e"
  "db_hashes (opened e cfg) = db_hashes e"
  "db_faults (opened e cfg) = db_faults e"
  "one_file (opened e cfg) = one_file e"
  by (simp_all add: opened_def)

lemma backend_init_opened [simp]:
  "backend_init lib cfg (opened e cfg') n = backend_init lib cfg e n"
  by (rule backend_init_env) simp_all

text \<open>An input file that is an output file is read as an empty stream; the others are unchanged.\<close>

lemma files_opened:
  "files (opened e cfg) p =
     (if writable e (out1_name cfg) \<and> one_file e p (out1_name cfg) \<or>
         writable e (out2_name cfg) \<and> one_file e p (out2_name cfg)
      then Some [] else files e p)"
  by (simp add: opened_def)

lemma stream_opened:
  "stream (opened e cfg) p =
     (if writable e (out1_name cfg) \<and> one_file e p (out1_name cfg) \<or>
         writable e (out2_name cfg) \<and> one_file e p (out2_name cfg)
      then [] else stream e p)"
  by (simp add: files_opened stream_def)

lemma length_stream_opened: "length (stream (opened e cfg) p) \<le> length (stream e p)"
  by (simp add: stream_opened)

lemma stream_kept:
  assumes "inputs_kept cfg e"
    and "files e (read1_file cfg) = Some fl1" and "files e (read2_file cfg) = Some fl2"
  shows "stream (opened e cfg) (read1_file cfg) = fl1"
    and "stream (opened e cfg) (read2_file cfg) = fl2"
proof -
  from assms(2,3) have "stream e (read1_file cfg) = fl1" "stream e (read2_file cfg) = fl2"
    by (simp_all add: stream_def)
  with assms(1) show "stream (opened e cfg) (read1_file cfg) = fl1"
    and "stream (opened e cfg) (read2_file cfg) = fl2"
    by (simp_all add: stream_opened inputs_kept_def)
qed

lemma gzclose_wb_fields [simp]:
  "linked (gzclose_wb e p file) = linked e"
  "one_file (gzclose_wb e p file) = one_file e"
  "files (gzclose_wb e p file) q =
     (case file of None \<Rightarrow> files e q
      | Some bytes \<Rightarrow> if one_file e q p then Some bytes else files e q)"
  by (simp_all add: gzclose_wb_def one_file_def fun_eq_iff split: option.splits)


text \<open>\<open>main\<close>, with the two openings of the outputs gathered in \<open>opened\<close>.\<close>

lemma main_opened:
  "main lib SHA256 cfg e =
     (if read1_file cfg = [] \<or> read2_file cfg = [] then (Exit 1, [], None)
      else
     (case count_fastq_records e (read1_file cfg) of
        Inl err \<Rightarrow> (Uncaught err, [], None)
      | Inr total_reads \<Rightarrow>
     (case gzopen_rb e (read1_file cfg) of
        None \<Rightarrow> (Exit 1, [], None)
      | Some file1 \<Rightarrow>
     (case gzopen_rb e (read2_file cfg) of
        None \<Rightarrow> (Exit 1, [], None)
      | Some file2 \<Rightarrow>
     (case (if index_file cfg \<noteq> [] then gzopen_rb e (index_file cfg) else Some []) of
        None \<Rightarrow> (Exit 1, [], None)
      | Some file3 \<Rightarrow>
     (case backend_init lib cfg e total_reads of
        Inl err \<Rightarrow> (Uncaught err, [], None)
      | Inr (store, bf) \<Rightarrow>
     (case main_loop lib SHA256 cfg
             (start_state (stream (opened e cfg) (read1_file cfg))
                (stream (opened e cfg) (read2_file cfg))
                (if index_file cfg \<noteq> [] then stream (opened e cfg) (index_file cfg) else [])
                (fst (gzopen_wb e (out1_name cfg))) (fst (gzopen_wb e (out2_name cfg)))
                store bf) of
        (tr, Inl err) \<Rightarrow> (Uncaught err, tr, None)
      | (tr, Inr s) \<Rightarrow> (Exit 0, tr, Some s))))))))"
proof -
  obtain o1 e1 where a: "gzopen_wb e (out1_name cfg) = (o1, e1)"
    by (cases "gzopen_wb e (out1_name cfg)")
  obtain o2 e2 where b: "gzopen_wb e1 (out2_name cfg) = (o2, e2)"
    by (cases "gzopen_wb e1 (out2_name cfg)")
  from a have e1: "e1 = snd (gzopen_wb e (out1_name cfg))" by simp
  from a b have e2: "e2 = opened e cfg" by (simp add: opened_def)
  from arg_cong [OF b, of fst] e1 have o2: "o2 = fst (gzopen_wb e (out2_name cfg))"
    by (simp add: gzopen_wb_fst)
  from a have o1: "o1 = fst (gzopen_wb e (out1_name cfg))" by simp
  show ?thesis
    unfolding main_def a b prod.case Let_def
    unfolding e2 backend_init_opened o2 o1 fst_conv
    by (rule refl)
qed

text \<open>Either \<open>main\<close> ends before the loop, or it runs the loop from a start state.\<close>

lemma main_cases:
  assumes "main lib SHA256 cfg e = (ex, tr, fin)"
  shows "(tr = [] \<and> fin = None \<and> ex \<noteq> Exit 0) \<or>
    (\<exists>file1 file2 file3 o1 o2 store bf res.
       files e (read1_file cfg) = Some file1 \<and> files e (read2_file cfg) = Some file2 \<and>
       backend_init lib cfg e (count_lines file1 0 div 4) = Inr (store, bf) \<and>
       main_loop lib SHA256 cfg
         (start_state (stream (opened e cfg) (read1_file cfg))
            (stream (opened e cfg) (read2_file cfg)) file3 o1 o2 store bf) = (tr, res) \<and>
       fin = (case res of Inl err \<Rightarrow> None | Inr s \<Rightarrow> Some s) \<and>
       ex = (case res of Inl err \<Rightarrow> Uncaught err | Inr s \<Rightarrow> Exit 0))"
  using assms unfolding main_opened
  by (auto simp: count_fastq_records_def gzopen_rb_def Let_def
           split: if_splits option.splits sum.splits prod.splits)
     blast+

text \<open>A run whose inputs can be opened and whose loop ends normally.\<close>

lemma main_run:
  assumes "read1_file cfg \<noteq> []" and "read2_file cfg \<noteq> []"
    and "files e (read1_file cfg) = Some fl1" and "files e (read2_file cfg) = Some fl2"
    and "index_file cfg \<noteq> [] \<longrightarrow> files e (index_file cfg) \<noteq> None"
    and "backend_init lib cfg e (count_lines fl1 0 div 4) = Inr (store, bf)"
    and "main_loop lib SHA256 cfg
           (start_state (stream (opened e cfg) (read1_file cfg))
              (stream (opened e cfg) (read2_file cfg))
              (if index_file cfg \<noteq> [] then stream (opened e cfg) (index_file cfg) else [])
              (fst (gzopen_wb e (out1_name cfg))) (fst (gzopen_wb e (out2_name cfg)))
              store bf) = (tr, Inr s)"
  shows "main lib SHA256 cfg e = (Exit 0, tr, Some s)"
  using assms unfolding main_opened
  by (auto simp: count_fastq_records_def gzopen_rb_def)


subsection \<open>What a pass of the loop does to the counters\<close>

lemma fingerprint_counters:
  "fingerprint SHA256 cfg s = (k, s') \<Longrightarrow>
     processed s' = processed s \<and> written s' = written s \<and> dup s' = dup s"
  by (auto simp: fingerprint_def Let_def split: if_splits prod.splits)

lemma query_store_counters:
  "query_store lib cfg s k = Inr (u, s') \<Longrightarrow>
     processed s' = processed s \<and> written s' = written s \<and> dup s' = dup s"
  by (auto simp: query_store_def Let_def split: if_splits option.splits sum.splits)

lemma loop_body_counters:
  assumes "loop_body lib SHA256 cfg s = Continue ob"
  shows "processed (after ob) = processed s + 1"
    and "written (after ob) = (if unique ob then written s + 1 else written s)"
    and "dup (after ob) = (if unique ob then dup s else dup s + 1)"
  using assms unfolding loop_body_def
  by (auto simp: Let_def split: prod.splits if_splits sum.splits
           dest!: fingerprint_counters query_store_counters)

lemma loop_body_Stop:
  assumes "loop_body lib SHA256 cfg s = Stop s'"
  shows "processed s' = processed s" and "written s' = written s" and "dup s' = dup s"
    and "out1 s' = out1 s" and "out2 s' = out2 s" and "seen s' = seen s"
    and "sqlite_store s' = sqlite_store s" and "bloom s' = bloom s"
    and "f3 s' = f3 s" and "r3 s' = r3 s"
  using assms unfolding loop_body_def
  by (auto simp: Let_def split: prod.splits if_splits sum.splits)

lemma loop_body_invariant:
  assumes "loop_body lib SHA256 cfg s = Continue ob"
    and "processed s = written s + dup s"
  shows "processed (after ob) = written (after ob) + dup (after ob)"
  using loop_body_counters [OF assms(1)] assms(2) by simp

lemma main_loop_invariant:
  "main_loop lib SHA256 cfg s = (tr, res) \<Longrightarrow> processed s = written s + dup s \<Longrightarrow>
     (\<forall>ob\<in>set tr. processed (after ob) = written (after ob) + dup (after ob)) \<and>
     (\<forall>s'. res = Inr s' \<longrightarrow> processed s' = written s' + dup s')"
proof (induction lib SHA256 cfg s arbitrary: tr res rule: main_loop.induct)
  case (1 lib SHA256 cfg s)
  show ?case
  proof (cases "loop_body lib SHA256 cfg s")
    case (Stop s')
    with "1.prems" show ?thesis
      by (auto simp: main_loop_Stop loop_body_Stop [OF Stop])
  next
    case (Throw err)
    with "1.prems" show ?thesis by (auto simp: main_loop_Throw)
  next
    case (Continue ob)
    obtain tr' res' where r: "main_loop lib SHA256 cfg (after ob) = (tr', res')"
      by (cases "main_loop lib SHA256 cfg (after ob)")
    with Continue "1.prems" have tr: "tr = ob # tr'" and res: "res = res'"
      by (simp_all add: main_loop_Continue)
    have inv: "processed (after ob) = written (after ob) + dup (after ob)"
      using loop_body_invariant [OF Continue "1.prems"(2)] .
    from "1.IH" [OF Continue r inv] inv tr res show ?thesis by simp
  qed
qed

text \<open>
  The counters cannot wrap around while the bytes still to be read, added to
  \<open>processed\<close>, stay below \<open>2 ^ 64\<close>: every pass consumes at least one byte.
\<close>

definition no_wrap :: "'bf state \<Rightarrow> bool" where
  "no_wrap s = (unat (processed s) + length (f1 s) < 2 ^ 64 \<and>
     unat (written s) \<le> unat (processed s) \<and> unat (dup s) \<le> unat (processed s))"

lemma unat_succ: "unat (x :: 64 word) + 1 < 2 ^ 64 \<Longrightarrow> unat (x + 1) = unat x + 1"
  by (simp add: unat_add_lem [THEN iffD1])

lemma loop_body_no_wrap:
  assumes c: "loop_body lib SHA256 cfg s = Continue ob" and n: "no_wrap s"
  shows "no_wrap (after ob)" and "stats_le s (after ob)"
proof -
  from loop_body_shorter [OF c] have l: "length (f1 (after ob)) + 1 \<le> length (f1 s)" by simp
  with n have p: "unat (processed s) + 1 < 2 ^ 64" by (simp add: no_wrap_def)
  with n have w: "unat (written s) + 1 < 2 ^ 64" and d: "unat (dup s) + 1 < 2 ^ 64"
    by (simp_all add: no_wrap_def)
  note cs = loop_body_counters [OF c]
  show "no_wrap (after ob)"
    using n l cs unat_succ [OF p] unat_succ [OF w] unat_succ [OF d]
    by (auto simp: no_wrap_def)
  show "stats_le s (after ob)"
    using cs unat_succ [OF p] unat_succ [OF w] unat_succ [OF d]
    by (auto simp: stats_le_def word_le_nat_alt)
qed

lemma stats_le_trans: "stats_le a b \<Longrightarrow> stats_le b c \<Longrightarrow> stats_le a c"
  by (auto simp: stats_le_def)

lemma main_loop_above_start:
  "main_loop lib SHA256 cfg s = (tr, res) \<Longrightarrow> no_wrap s \<Longrightarrow>
     (\<forall>ob\<in>set tr. stats_le s (after ob)) \<and> (\<forall>s'. res = Inr s' \<longrightarrow> stats_le s s')"
proof (induction lib SHA256 cfg s arbitrary: tr res rule: main_loop.induct)
  case (1 lib SHA256 cfg s)
  show ?case
  proof (cases "loop_body lib SHA256 cfg s")
    case (Stop s')
    with "1.prems" show ?thesis
      by (auto simp: main_loop_Stop stats_le_def loop_body_Stop [OF Stop])
  next
    case (Throw err)
    with "1.prems" show ?thesis by (auto simp: main_loop_Throw)
  next
    case (Continue ob)
    obtain tr' res' where r: "main_loop lib SHA256 cfg (after ob) = (tr', res')"
      by (cases "main_loop lib SHA256 cfg (after ob)")
    with Continue "1.prems" have tr: "tr = ob # tr'" and res: "res = res'"
      by (simp_all add: main_loop_Continue)
    note step = loop_body_no_wrap [OF Continue "1.prems"(2)]
    from "1.IH" [OF Continue r step(1)] step(2) tr res show ?thesis
      by (auto intro: stats_le_trans)
  qed
qed

lemma main_loop_nondecreasing:
  "main_loop lib SHA256 cfg s = (tr, res) \<Longrightarrow> no_wrap s \<Longrightarrow>
     sorted_wrt stats_le (observed tr (case res of Inl err \<Rightarrow> None | Inr s' \<Rightarrow> Some s'))"
proof (induction lib SHA256 cfg s arbitrary: tr res rule: main_loop.induct)
  case (1 lib SHA256 cfg s)
  show ?case
  proof (cases "loop_body lib SHA256 cfg s")
    case (Stop s')
    with "1.prems" show ?thesis by (auto simp: main_loop_Stop observed_def)
  next
    case (Throw err)
    with "1.prems" show ?thesis by (auto simp: main_loop_Throw observed_def)
  next
    case (Continue ob)
    obtain tr' res' where r: "main_loop lib SHA256 cfg (after ob) = (tr', res')"
      by (cases "main_loop lib SHA256 cfg (after ob)")
    with Continue "1.prems" have tr: "tr = ob # tr'" and res: "res = res'"
      by (simp_all add: main_loop_Continue)
    note step = loop_body_no_wrap [OF Continue "1.prems"(2)]
    from "1.IH" [OF Continue r step(1)] main_loop_above_start [OF r step(1)] tr res
    show ?thesis by (auto simp: observed_def split: sum.splits)
  qed
qed

lemma no_wrap_start:
  "length file1 < 2 ^ 64 \<Longrightarrow> no_wrap (start_state file1 file2 file3 o1 o2 store bf)"
  by (simp add: no_wrap_def start_state_def)

subsection \<open>Lines, quartets and records of a stream\<close>

lemma gzgets_None [simp]: "gzgets f len = None \<longleftrightarrow> f = []"
  by (simp add: gzgets_def)

lemma gzgets_Nil [simp]: "gzgets [] len = None"
  by (simp add: gzgets_def)

lemma gz_lines_Nil [simp]: "gz_lines len [] = []"
  by (simp add: gz_lines.simps gzgets_def)

lemma gz_lines_Some:
  "2 \<le> len \<Longrightarrow> gzgets f len = Some (buf, rest) \<Longrightarrow> gz_lines len f = buf # gz_lines len rest"
  by (subst gz_lines.simps) simp

lemma gz_lines_eq_Nil: "2 \<le> len \<Longrightarrow> gz_lines len f = [] \<longleftrightarrow> f = []"
  by (subst gz_lines.simps) (auto simp: gzgets_def split: prod.splits)

lemma gets_chunk_append: "gets_chunk n f = (buf, rest) \<Longrightarrow> buf @ rest = f"
  by (induction n f arbitrary: buf rest rule: gets_chunk.induct)
     (auto split: if_splits prod.splits)

lemma gzgets_append: "gzgets f len = Some (buf, rest) \<Longrightarrow> buf @ rest = f"
  by (auto simp: gzgets_def gets_chunk_append split: if_splits)

lemma concat_gz_lines: "2 \<le> len \<Longrightarrow> concat (gz_lines len f) = f"
proof (induction len f rule: gz_lines.induct)
  case (1 len f)
  show ?case
  proof (cases "gzgets f len")
    case None
    then show ?thesis by simp
  next
    case (Some p)
    then obtain buf rest where g: "gzgets f len = Some (buf, rest)" by (cases p) simp
    from "1.prems" have n: "\<not> len < 2" by simp
    from g "1.prems" have "gz_lines len f = buf # gz_lines len rest"
      by (simp add: gz_lines_Some)
    moreover from "1.IH" [OF n g refl "1.prems"] have "concat (gz_lines len rest) = rest" .
    ultimately show ?thesis using gzgets_append [OF g] by simp
  qed
qed

text \<open>\<^verbatim>\<open>read_fastq_record\<close> in terms of the lines of the stream.\<close>

lemma read_fastq_record_lines:
  "read_fastq_record f rec =
     (case gz_lines 10000 f of
        [] \<Rightarrow> (False, [], rec)
      | [a] \<Rightarrow> (False, [], rec\<lparr>id_f := c_string a\<rparr>)
      | [a, b] \<Rightarrow> (False, [], rec\<lparr>id_f := c_string a, seq := c_string b\<rparr>)
      | [a, b, c] \<Rightarrow>
          (False, [], rec\<lparr>id_f := c_string a, seq := c_string b, plus_f := c_string c\<rparr>)
      | a # b # c # d # ls \<Rightarrow>
          (True, concat ls,
           rec\<lparr>id_f := c_string a, seq := c_string b, plus_f := c_string c,
               qual := c_string d\<rparr>))"
proof (cases "gzgets f 10000")
  case None
  then show ?thesis by (simp add: read_fastq_record_def)
next
  case (Some p1)
  obtain a g1 where p1: "gzgets f 10000 = Some (a, g1)" using Some by (cases p1) simp
  then have l1: "gz_lines 10000 f = a # gz_lines 10000 g1" by (simp add: gz_lines_Some)
  show ?thesis
  proof (cases "gzgets g1 10000")
    case None
    then show ?thesis using p1 l1 by (simp add: read_fastq_record_def)
  next
    case (Some p2)
    obtain b g2 where p2: "gzgets g1 10000 = Some (b, g2)" using Some by (cases p2) simp
    then have l2: "gz_lines 10000 g1 = b # gz_lines 10000 g2" by (simp add: gz_lines_Some)
    show ?thesis
    proof (cases "gzgets g2 10000")
      case None
      then show ?thesis using p1 l1 p2 l2 by (simp add: read_fastq_record_def)
    next
      case (Some p3)
      obtain c g3 where p3: "gzgets g2 10000 = Some (c, g3)" using Some by (cases p3) simp
      then have l3: "gz_lines 10000 g2 = c # gz_lines 10000 g3" by (simp add: gz_lines_Some)
      show ?thesis
      proof (cases "gzgets g3 10000")
        case None
        then show ?thesis using p1 l1 p2 l2 p3 l3 by (simp add: read_fastq_record_def)
      next
        case (Some p4)
        obtain d g4 where p4: "gzgets g3 10000 = Some (d, g4)" using Some by (cases p4) simp
        then have l4: "gz_lines 10000 g3 = d # gz_lines 10000 g4" by (simp add: gz_lines_Some)
        have "concat (gz_lines 10000 g4) = g4" by (simp add: concat_gz_lines)
        then show ?thesis using p1 l1 p2 l2 p3 l3 p4 l4 by (simp add: read_fastq_record_def)
      qed
    qed
  qed
qed


lemma gz_lines_concat_tail:
  "2 \<le> len \<Longrightarrow> gz_lines len f = xs @ ys \<Longrightarrow> gz_lines len (concat ys) = ys"
proof (induction xs arbitrary: f)
  case Nil
  then show ?case using concat_gz_lines [of len f] by simp
next
  case (Cons x xs)
  from Cons.prems have "f \<noteq> []" by auto
  then obtain buf rest where g: "gzgets f len = Some (buf, rest)"
    by (cases "gzgets f len") auto
  from gz_lines_Some [OF Cons.prems(1) g] Cons.prems(2) have "gz_lines len rest = xs @ ys"
    by simp
  from Cons.IH [OF Cons.prems(1) this] show ?case .
qed

lemma read_fastq_record_True:
  assumes "read_fastq_record f rec = (True, rest, rec')"
  shows "\<exists>a b c d. gz_lines 10000 f = a # b # c # d # gz_lines 10000 rest \<and>
     rec' = rec\<lparr>id_f := c_string a, seq := c_string b, plus_f := c_string c,
                qual := c_string d\<rparr>"
proof -
  from assms obtain a b c d ls where l: "gz_lines 10000 f = a # b # c # d # ls"
    and r: "rest = concat ls"
    and rec': "rec' = rec\<lparr>id_f := c_string a, seq := c_string b, plus_f := c_string c,
                qual := c_string d\<rparr>"
    unfolding read_fastq_record_lines by (auto split: list.splits)
  from l have "gz_lines 10000 f = [a, b, c, d] @ ls" by simp
  from gz_lines_concat_tail [OF _ this] r have "gz_lines 10000 rest = ls" by simp
  with l rec' show ?thesis by simp
qed

lemma read_fastq_record_False:
  assumes "read_fastq_record f rec = (False, rest, rec')"
  shows "length (gz_lines 10000 f) < 4 \<and> rest = []"
  using assms unfolding read_fastq_record_lines by (auto split: list.splits)

lemma quartets_read:
  "read_fastq_record f rec = (ok, rest, rec') \<Longrightarrow>
     quartets f = (if ok then Suc (quartets rest) else 0)"
  by (cases ok)
     (auto simp: quartets_def dest!: read_fastq_record_True read_fastq_record_False)

text \<open>A successful read overwrites the four fields: its result does not depend on the record passed.\<close>

lemma read_fastq_record_any:
  assumes "read_fastq_record f rec = (ok, rest, rec')"
  shows "\<exists>rec''. read_fastq_record f rec0 = (ok, rest, rec'') \<and> (ok \<longrightarrow> rec'' = rec')"
proof (cases ok)
  case True
  with assms obtain a b c d where l: "gz_lines 10000 f = a # b # c # d # gz_lines 10000 rest"
    and r: "rec' = rec\<lparr>id_f := c_string a, seq := c_string b, plus_f := c_string c,
                qual := c_string d\<rparr>"
    by (auto dest!: read_fastq_record_True)
  have e: "x\<lparr>id_f := a', seq := b', plus_f := c', qual := d'\<rparr>
      = y\<lparr>id_f := a', seq := b', plus_f := c', qual := d'\<rparr>" for x y :: FastqRecord and a' b' c' d'
    by (cases x, cases y) simp
  have "read_fastq_record f rec0 = (True, concat (gz_lines 10000 rest),
      rec0\<lparr>id_f := c_string a, seq := c_string b, plus_f := c_string c, qual := c_string d\<rparr>)"
    by (simp add: read_fastq_record_lines l)
  with True r e [where x = rec0 and y = rec] show ?thesis by (simp add: concat_gz_lines)
next
  case False
  with assms have l: "length (gz_lines 10000 f) < 4" and r: "rest = []"
    by (auto dest!: read_fastq_record_False)
  have "fst (read_fastq_record f rec0) = False \<and> fst (snd (read_fastq_record f rec0)) = []"
    using l unfolding read_fastq_record_lines by (auto split: list.split)
  with False r show ?thesis by (cases "read_fastq_record f rec0") auto
qed

lemma records_read:
  assumes "read_fastq_record f rec = (ok, rest, rec')"
  shows "records f = (if ok then rec' # records rest else [])"
  using read_fastq_record_any [OF assms, of FastqRecord_new]
  by (subst records.simps) auto

lemma length_records: "length (records f) = quartets f"
proof (induction f rule: records.induct)
  case (1 f)
  obtain ok rest rec where r: "read_fastq_record f FastqRecord_new = (ok, rest, rec)"
    by (cases "read_fastq_record f FastqRecord_new")
  show ?case
  proof (cases ok)
    case True
    with "1.IH" [OF r [symmetric] refl] r have "length (records rest) = quartets rest" by simp
    with records_read [OF r] quartets_read [OF r] True show ?thesis by simp
  next
    case False
    with records_read [OF r] quartets_read [OF r] show ?thesis by simp
  qed
qed

subsection \<open>What the parts of a pass leave unchanged\<close>

lemma fingerprint_frame:
  assumes "fingerprint SHA256 cfg s = (k, s')"
  shows "f1 s' = f1 s" and "f2 s' = f2 s" and "r1 s' = r1 s" and "r2 s' = r2 s"
    and "out1 s' = out1 s" and "out2 s' = out2 s" and "seen s' = seen s"
    and "sqlite_store s' = sqlite_store s" and "bloom s' = bloom s"
    and "processed s' = processed s" and "written s' = written s" and "dup s' = dup s"
  using assms by (auto simp: fingerprint_def Let_def split: if_splits prod.splits)

lemma query_store_frame:
  assumes "query_store lib cfg s k = Inr (u, s')"
  shows "f1 s' = f1 s" and "f2 s' = f2 s" and "f3 s' = f3 s"
    and "r1 s' = r1 s" and "r2 s' = r2 s" and "r3 s' = r3 s"
    and "out1 s' = out1 s" and "out2 s' = out2 s"
    and "processed s' = processed s" and "written s' = written s" and "dup s' = dup s"
  using assms
  by (auto simp: query_store_def Let_def split: if_splits option.splits sum.splits)

subsection \<open>The anatomy of a pass\<close>

lemma loop_body_ContinueE:
  assumes "loop_body lib SHA256 cfg s = Continue ob"
  obtains fl1 rec1 fl2 rec2 s3 s4 where
    "read_fastq_record (f1 s) (r1 s) = (True, fl1, rec1)"
    "read_fastq_record (f2 s) (r2 s) = (True, fl2, rec2)"
    "fingerprint SHA256 cfg (s\<lparr>f1 := fl1, r1 := rec1, f2 := fl2, r2 := rec2\<rparr>) = (key ob, s3)"
    "query_store lib cfg s3 (key ob) = Inr (unique ob, s4)"
    "after ob =
       (if unique ob
        then s4\<lparr>out1 := write_fastq_record (out1 s4) (r1 s4),
                out2 := write_fastq_record (out2 s4) (r2 s4),
                written := written s4 + 1\<rparr>
        else s4\<lparr>dup := dup s4 + 1\<rparr>)\<lparr>processed := processed s4 + 1\<rparr>"
  using assms unfolding loop_body_def
  by (auto simp: Let_def split: prod.splits if_splits sum.splits)

lemma loop_body_Continue_reads:
  assumes "loop_body lib SHA256 cfg s = Continue ob"
  shows "read_fastq_record (f1 s) (r1 s) = (True, f1 (after ob), r1 (after ob))"
    and "read_fastq_record (f2 s) (r2 s) = (True, f2 (after ob), r2 (after ob))"
proof -
  from assms obtain fl1 rec1 fl2 rec2 s3 s4 where
    a: "read_fastq_record (f1 s) (r1 s) = (True, fl1, rec1)" and
    b: "read_fastq_record (f2 s) (r2 s) = (True, fl2, rec2)" and
    c: "fingerprint SHA256 cfg (s\<lparr>f1 := fl1, r1 := rec1, f2 := fl2, r2 := rec2\<rparr>) = (key ob, s3)" and
    d: "query_store lib cfg s3 (key ob) = Inr (unique ob, s4)" and
    e: "after ob =
       (if unique ob
        then s4\<lparr>out1 := write_fastq_record (out1 s4) (r1 s4),
                out2 := write_fastq_record (out2 s4) (r2 s4),
                written := written s4 + 1\<rparr>
        else s4\<lparr>dup := dup s4 + 1\<rparr>)\<lparr>processed := processed s4 + 1\<rparr>"
    by (rule loop_body_ContinueE)
  have "f1 (after ob) = fl1 \<and> r1 (after ob) = rec1 \<and> f2 (after ob) = fl2 \<and> r2 (after ob) = rec2"
    by (simp add: e query_store_frame [OF d] fingerprint_frame [OF c])
  with a b show "read_fastq_record (f1 s) (r1 s) = (True, f1 (after ob), r1 (after ob))"
    and "read_fastq_record (f2 s) (r2 s) = (True, f2 (after ob), r2 (after ob))"
    by simp_all
qed

lemma loop_body_Stop_reads:
  assumes "loop_body lib SHA256 cfg s = Stop s'"
  shows "fst (read_fastq_record (f1 s) (r1 s)) = False \<or>
         fst (read_fastq_record (f2 s) (r2 s)) = False"
  using assms unfolding loop_body_def
  by (auto simp: Let_def split: prod.splits if_splits sum.splits)

lemma loop_body_ThrowE:
  assumes "loop_body lib SHA256 cfg s = Throw err"
  obtains fl1 rec1 fl2 rec2 k s3 where
    "read_fastq_record (f1 s) (r1 s) = (True, fl1, rec1)"
    "read_fastq_record (f2 s) (r2 s) = (True, fl2, rec2)"
    "fingerprint SHA256 cfg (s\<lparr>f1 := fl1, r1 := rec1, f2 := fl2, r2 := rec2\<rparr>) = (k, s3)"
    "query_store lib cfg s3 k = Inl err"
  using assms unfolding loop_body_def
  by (auto simp: Let_def split: prod.splits if_splits sum.splits)

lemma main_loop_pairs:
  "main_loop lib SHA256 cfg s = (tr, Inr s') \<Longrightarrow>
     map pair_of tr = zip (records (f1 s)) (records (f2 s))"
proof (induction lib SHA256 cfg s arbitrary: tr rule: main_loop.induct)
  case (1 lib SHA256 cfg s)
  show ?case
  proof (cases "loop_body lib SHA256 cfg s")
    case (Stop s0)
    obtain ok1 fl1 rec1 where a: "read_fastq_record (f1 s) (r1 s) = (ok1, fl1, rec1)"
      by (cases "read_fastq_record (f1 s) (r1 s)")
    obtain ok2 fl2 rec2 where b: "read_fastq_record (f2 s) (r2 s) = (ok2, fl2, rec2)"
      by (cases "read_fastq_record (f2 s) (r2 s)")
    from loop_body_Stop_reads [OF Stop] a b have "\<not> ok1 \<or> \<not> ok2" by simp
    with records_read [OF a] records_read [OF b]
    have "zip (records (f1 s)) (records (f2 s)) = []" by auto
    with Stop "1.prems" show ?thesis by (simp add: main_loop_Stop)
  next
    case (Throw err)
    with "1.prems" show ?thesis by (simp add: main_loop_Throw)
  next
    case (Continue ob)
    obtain tr' res' where r: "main_loop lib SHA256 cfg (after ob) = (tr', res')"
      by (cases "main_loop lib SHA256 cfg (after ob)")
    with Continue "1.prems" have tr: "tr = ob # tr'" and res: "res' = Inr s'"
      by (simp_all add: main_loop_Continue)
    note rd = loop_body_Continue_reads [OF Continue]
    from "1.IH" [OF Continue] r res tr records_read [OF rd(1)] records_read [OF rd(2)]
    show ?thesis by (simp add: pair_of_def)
  qed
qed

lemma is_unique_no_throw:
  "PrepareFails \<notin> set (faults db) \<Longrightarrow>
     \<exists>u db'. is_unique db k = Inr (u, db') \<and> PrepareFails \<notin> set (faults db')"
  by (cases "faults db")
     (auto simp: is_unique_def sqlite3_prepare_v2_def sqlite3_step_def next_fault_def Let_def
           split: prod.splits fault.splits if_splits)

lemma query_store_no_throw:
  assumes "no_throw cfg s"
  shows "\<exists>u s'. query_store lib cfg s k = Inr (u, s') \<and> no_throw cfg s'"
proof (cases "backend cfg")
  case Memory
  then show ?thesis by (auto simp: query_store_def no_throw_def)
next
  case Bloom
  with assms show ?thesis by (auto simp: query_store_def no_throw_def)
next
  case Sqlite
  with assms obtain db where db: "sqlite_store s = Some db" "PrepareFails \<notin> set (faults db)"
    by (auto simp: no_throw_def split: option.splits)
  from is_unique_no_throw [OF db(2), of k] obtain u db'
    where "is_unique db k = Inr (u, db')" "PrepareFails \<notin> set (faults db')" by blast
  with Sqlite db show ?thesis by (auto simp: query_store_def no_throw_def)
qed

lemma no_throw_cong:
  "no_throw cfg s \<Longrightarrow> sqlite_store s' = sqlite_store s \<Longrightarrow> bloom s' = bloom s \<Longrightarrow>
     no_throw cfg s'"
  by (cases "backend cfg") (simp_all add: no_throw_def)

lemma loop_body_no_throw:
  assumes "no_throw cfg s"
  shows "loop_body lib SHA256 cfg s \<noteq> Throw err"
    and "loop_body lib SHA256 cfg s = Continue ob \<Longrightarrow> no_throw cfg (after ob)"
proof -
  show "loop_body lib SHA256 cfg s \<noteq> Throw err"
  proof
    assume "loop_body lib SHA256 cfg s = Throw err"
    then obtain fl1 rec1 fl2 rec2 k s3 where
      fp: "fingerprint SHA256 cfg (s\<lparr>f1 := fl1, r1 := rec1, f2 := fl2, r2 := rec2\<rparr>) = (k, s3)"
      and q: "query_store lib cfg s3 k = Inl err"
      by (rule loop_body_ThrowE)
    from assms fingerprint_frame(8,9) [OF fp] have "no_throw cfg s3"
      by (auto intro: no_throw_cong)
    from query_store_no_throw [OF this, of lib k] q show False by auto
  qed
  assume c: "loop_body lib SHA256 cfg s = Continue ob"
  from c obtain fl1 rec1 fl2 rec2 s3 s4 where
    fp: "fingerprint SHA256 cfg (s\<lparr>f1 := fl1, r1 := rec1, f2 := fl2, r2 := rec2\<rparr>) = (key ob, s3)" and
    d: "query_store lib cfg s3 (key ob) = Inr (unique ob, s4)" and
    e: "after ob =
       (if unique ob
        then s4\<lparr>out1 := write_fastq_record (out1 s4) (r1 s4),
                out2 := write_fastq_record (out2 s4) (r2 s4),
                written := written s4 + 1\<rparr>
        else s4\<lparr>dup := dup s4 + 1\<rparr>)\<lparr>processed := processed s4 + 1\<rparr>"
    by (rule loop_body_ContinueE)
  from assms fingerprint_frame(8,9) [OF fp] have "no_throw cfg s3"
    by (auto intro: no_throw_cong)
  from query_store_no_throw [OF this, of lib "key ob"] d have "no_throw cfg s4" by auto
  moreover have "sqlite_store (after ob) = sqlite_store s4" "bloom (after ob) = bloom s4"
    by (simp_all add: e)
  ultimately show "no_throw cfg (after ob)" by (rule no_throw_cong)
qed

lemma main_loop_returns:
  "no_throw cfg s \<Longrightarrow> \<exists>s'. snd (main_loop lib SHA256 cfg s) = Inr s'"
proof (induction lib SHA256 cfg s rule: main_loop.induct)
  case (1 lib SHA256 cfg s)
  show ?case
  proof (cases "loop_body lib SHA256 cfg s")
    case (Stop s0)
    then show ?thesis by (simp add: main_loop_Stop)
  next
    case (Throw err)
    with loop_body_no_throw(1) [OF "1.prems"] show ?thesis by blast
  next
    case (Continue ob)
    from "1.IH" [OF Continue loop_body_no_throw(2) [OF "1.prems" Continue]] Continue
    show ?thesis by (simp add: main_loop_Continue)
  qed
qed

lemma main_loop_processed:
  "main_loop lib SHA256 cfg s = (tr, Inr s') \<Longrightarrow> processed s' = processed s + of_nat (length tr)"
proof (induction lib SHA256 cfg s arbitrary: tr rule: main_loop.induct)
  case (1 lib SHA256 cfg s)
  show ?case
  proof (cases "loop_body lib SHA256 cfg s")
    case (Stop s0)
    with "1.prems" have "tr = []" "s' = s0" by (simp_all add: main_loop_Stop)
    with loop_body_Stop(1) [OF Stop] show ?thesis by simp
  next
    case (Throw err)
    with "1.prems" show ?thesis by (simp add: main_loop_Throw)
  next
    case (Continue ob)
    obtain tr' res' where r: "main_loop lib SHA256 cfg (after ob) = (tr', res')"
      by (cases "main_loop lib SHA256 cfg (after ob)")
    with Continue "1.prems" have tr: "tr = ob # tr'" and res: "res' = Inr s'"
      by (simp_all add: main_loop_Continue)
    from "1.IH" [OF Continue] r res tr loop_body_counters(1) [OF Continue]
    show ?thesis by simp
  qed
qed

lemma backend_init_no_throw:
  assumes "backend cfg = Sqlite \<longrightarrow> db_open_ok e \<and> PrepareFails \<notin> set (db_faults e)"
  shows "\<exists>store bf. backend_init lib cfg e n = Inr (store, bf) \<and>
           no_throw cfg (start_state file1 file2 file3 o1 o2 store bf)"
  using assms
  by (cases "backend cfg")
     (auto simp: backend_init_def SQLiteStore_new_def no_throw_def start_state_def Let_def)

subsection \<open>The pre-scan and the Bloom filter\<close>

lemma count_lines_gz_lines: "count_lines f n = n + of_nat (length (gz_lines 8192 f))"
proof (induction f n rule: count_lines.induct)
  case (1 f lines)
  show ?case
  proof (cases "gzgets f 8192")
    case None
    then show ?thesis by (subst count_lines.simps) simp
  next
    case (Some p)
    then obtain buf rest where g: "gzgets f 8192 = Some (buf, rest)" by (cases p) simp
    from "1.IH" [OF g refl] g gz_lines_Some [OF _ g] show ?thesis
      by (subst count_lines.simps) simp
  qed
qed

lemma gets_chunk_larger:
  "gets_chunk n f = (buf, rest) \<Longrightarrow> length buf < n \<Longrightarrow> n \<le> m \<Longrightarrow> gets_chunk m f = (buf, rest)"
proof (induction n f arbitrary: buf rest m rule: gets_chunk.induct)
  case (1 n)
  then show ?case by simp
next
  case (2 n c cs)
  show ?case
  proof (cases "c = newline")
    case True
    with "2.prems" show ?thesis by auto
  next
    case False
    obtain b r where g: "gets_chunk (n - 1) cs = (b, r)" by (cases "gets_chunk (n - 1) cs")
    from "2.prems" have n: "n \<noteq> 0" by auto
    with "2.prems" False g have buf: "buf = c # b" "rest = r" by auto
    with "2.prems" have "length b < n - 1" "n - 1 \<le> m - 1" by auto
    from "2.IH" [OF n False g this] have "gets_chunk (m - 1) cs = (b, r)" .
    with False n "2.prems"(3) buf show ?thesis by auto
  qed
qed

lemma gz_lines_buffers:
  "\<forall>l\<in>set (gz_lines 8192 f). length l < 8191 \<Longrightarrow> gz_lines 10000 f = gz_lines 8192 f"
proof (induction "8192 :: nat" f rule: gz_lines.induct)
  case (1 f)
  show ?case
  proof (cases "gzgets f 8192")
    case None
    then show ?thesis by simp
  next
    case (Some p)
    then obtain buf rest where g: "gzgets f 8192 = Some (buf, rest)" by (cases p) simp
    from gz_lines_Some [OF _ g] have l: "gz_lines 8192 f = buf # gz_lines 8192 rest" by simp
    with "1.prems" have b: "length buf < 8191" and r: "\<forall>l\<in>set (gz_lines 8192 rest). length l < 8191"
      by simp_all
    from g have c: "gets_chunk 8191 f = (buf, rest)" and ne: "f \<noteq> []"
      by (auto simp: gzgets_def split: if_splits)
    from gets_chunk_larger [OF c b, of 9999] ne have "gzgets f 10000 = Some (buf, rest)"
      by (simp add: gzgets_def)
    from gz_lines_Some [OF _ this] have "gz_lines 10000 f = buf # gz_lines 10000 rest" by simp
    with l "1.hyps" [OF _ g refl r] show ?thesis by simp
  qed
qed

lemma length_gz_lines_le: "2 \<le> len \<Longrightarrow> length (gz_lines len f) \<le> length f"
proof (induction len f rule: gz_lines.induct)
  case (1 len f)
  show ?case
  proof (cases "gzgets f len")
    case None
    then show ?thesis by simp
  next
    case (Some p)
    then obtain buf rest where g: "gzgets f len = Some (buf, rest)" by (cases p) simp
    from "1.prems" have n: "\<not> len < 2" by simp
    from "1.IH" [OF n g refl "1.prems"] gz_lines_Some [OF "1.prems" g]
         gzgets_shorter [OF g "1.prems"]
    show ?thesis by simp
  qed
qed

lemma word64_div4: "n < 2 ^ 64 \<Longrightarrow> (of_nat n :: 64 word) div 4 = of_nat (n div 4)"
proof -
  assume "n < 2 ^ 64"
  then have "unat (of_nat n :: 64 word) = n" by (simp add: unat_of_nat)
  then show ?thesis by (simp add: word_arith_nat_div)
qed


lemma query_store_bloom:
  assumes "backend cfg = Bloom" and "bloom s = Some b"
    and "query_store lib cfg s k = Inr (u, s')"
  shows "bloom s' = Some (if u then insert_bf lib b k else b)"
  using assms by (auto simp: query_store_def split: if_splits)

lemma loop_body_bloom:
  assumes be: "backend cfg = Bloom" and b: "bloom s = Some b"
    and c: "loop_body lib SHA256 cfg s = Continue ob"
  shows "bloom (after ob) = Some (if unique ob then insert_bf lib b (key ob) else b)"
proof -
  from c obtain fl1 rec1 fl2 rec2 s3 s4 where
    fp: "fingerprint SHA256 cfg (s\<lparr>f1 := fl1, r1 := rec1, f2 := fl2, r2 := rec2\<rparr>) = (key ob, s3)" and
    d: "query_store lib cfg s3 (key ob) = Inr (unique ob, s4)" and
    e: "after ob =
       (if unique ob
        then s4\<lparr>out1 := write_fastq_record (out1 s4) (r1 s4),
                out2 := write_fastq_record (out2 s4) (r2 s4),
                written := written s4 + 1\<rparr>
        else s4\<lparr>dup := dup s4 + 1\<rparr>)\<lparr>processed := processed s4 + 1\<rparr>"
    by (rule loop_body_ContinueE)
  from fingerprint_frame(9) [OF fp] b have "bloom s3 = Some b" by simp
  from query_store_bloom [OF be this d] show ?thesis by (simp add: e)
qed

lemma main_loop_bloom:
  "main_loop lib SHA256 cfg s = (tr, res) \<Longrightarrow> backend cfg = Bloom \<Longrightarrow>
   bloom s = Some (foldl (insert_bf lib) b0 ks0) \<Longrightarrow>
     (\<forall>ob\<in>set tr. \<exists>ks. bloom (after ob) = Some (foldl (insert_bf lib) b0 ks)) \<and>
     (\<forall>s'. res = Inr s' \<longrightarrow> (\<exists>ks. bloom s' = Some (foldl (insert_bf lib) b0 ks)))"
proof (induction lib SHA256 cfg s arbitrary: tr res ks0 rule: main_loop.induct)
  case (1 lib SHA256 cfg s)
  show ?case
  proof (cases "loop_body lib SHA256 cfg s")
    case (Stop s0)
    with "1.prems" have "tr = []" "res = Inr s0" by (simp_all add: main_loop_Stop)
    with loop_body_Stop(8) [OF Stop] "1.prems"(3) show ?thesis by auto
  next
    case (Throw err)
    with "1.prems" show ?thesis by (auto simp: main_loop_Throw)
  next
    case (Continue ob)
    obtain tr' res' where r: "main_loop lib SHA256 cfg (after ob) = (tr', res')"
      by (cases "main_loop lib SHA256 cfg (after ob)")
    with Continue "1.prems" have tr: "tr = ob # tr'" and res: "res = res'"
      by (simp_all add: main_loop_Continue)
    from loop_body_bloom [OF "1.prems"(2,3) Continue]
    have b: "bloom (after ob) =
        Some (foldl (insert_bf lib) b0 (if unique ob then ks0 @ [key ob] else ks0))"
      by simp
    then have "\<exists>ks. bloom (after ob) = Some (foldl (insert_bf lib) b0 ks)" by (rule exI)
    with "1.IH" [OF Continue r "1.prems"(2) b] tr res show ?thesis by simp
  qed
qed

subsection \<open>The index stream\<close>

lemma fingerprint_with_index:
  "index_file cfg \<noteq> [] \<Longrightarrow>
     fingerprint SHA256 cfg s =
       (case read_fastq_record (f3 s) (r3 s) of
          (ok, fl, rec) \<Rightarrow>
            (sha256 SHA256 (seq rec @ seq (r1 s) @ seq (r2 s)), s\<lparr>f3 := fl, r3 := rec\<rparr>))"
  by (simp add: fingerprint_def Let_def split: prod.splits)

lemma loop_body_index:
  assumes idx: "index_file cfg \<noteq> []" and c: "loop_body lib SHA256 cfg s = Continue ob"
  shows "f3 (after ob) = fst (snd (read_fastq_record (f3 s) (r3 s)))"
    and "r3 (after ob) = index_record_left s"
    and "key ob = sha256 SHA256 (seq (index_record_left s) @ seq (r1 (after ob)) @ seq (r2 (after ob)))"
proof -
  from c obtain fl1 rec1 fl2 rec2 s3 s4 where
    fp: "fingerprint SHA256 cfg (s\<lparr>f1 := fl1, r1 := rec1, f2 := fl2, r2 := rec2\<rparr>) = (key ob, s3)" and
    d: "query_store lib cfg s3 (key ob) = Inr (unique ob, s4)" and
    e: "after ob =
       (if unique ob
        then s4\<lparr>out1 := write_fastq_record (out1 s4) (r1 s4),
                out2 := write_fastq_record (out2 s4) (r2 s4),
                written := written s4 + 1\<rparr>
        else s4\<lparr>dup := dup s4 + 1\<rparr>)\<lparr>processed := processed s4 + 1\<rparr>"
    by (rule loop_body_ContinueE)
  obtain ok fl rec where rd: "read_fastq_record (f3 s) (r3 s) = (ok, fl, rec)"
    by (cases "read_fastq_record (f3 s) (r3 s)")
  from fp rd have k: "key ob = sha256 SHA256 (seq rec @ seq rec1 @ seq rec2)"
    and s3: "f3 s3 = fl" "r3 s3 = rec" "r1 s3 = rec1" "r2 s3 = rec2"
    by (auto simp: fingerprint_with_index [OF idx])
  have a: "f3 (after ob) = fl" "r3 (after ob) = rec" "r1 (after ob) = rec1" "r2 (after ob) = rec2"
    by (simp_all add: e query_store_frame [OF d] s3)
  from a rd show "f3 (after ob) = fst (snd (read_fastq_record (f3 s) (r3 s)))"
    and "r3 (after ob) = index_record_left s" by (simp_all add: index_record_left_def)
  from a k rd
  show "key ob = sha256 SHA256 (seq (index_record_left s) @ seq (r1 (after ob)) @ seq (r2 (after ob)))"
    by (simp add: index_record_left_def)
qed

lemma read_exhausted:
  assumes "quartets f = 0"
  shows "fst (read_fastq_record f rec) = False"
    and "fst (snd (read_fastq_record f rec)) = []"
    and "seq (snd (snd (read_fastq_record f rec)))
           = (if length (gz_lines 10000 f) < 2 then seq rec else c_string (gz_lines 10000 f ! 1))"
proof -
  from assms have "length (gz_lines 10000 f) < 4" by (simp add: quartets_def)
  then show "fst (read_fastq_record f rec) = False"
    and "fst (snd (read_fastq_record f rec)) = []"
    and "seq (snd (snd (read_fastq_record f rec)))
           = (if length (gz_lines 10000 f) < 2 then seq rec else c_string (gz_lines 10000 f ! 1))"
    unfolding read_fastq_record_lines by (auto split: list.split)
qed

lemma read_Nil [simp]: "read_fastq_record [] rec = (False, [], rec)"
  by (simp add: read_fastq_record_def)

lemma quartets_Nil [simp]: "quartets [] = 0"
  by (simp add: quartets_def)

lemma main_loop_index_exhausted:
  "main_loop lib SHA256 cfg s = (tr, res) \<Longrightarrow> index_file cfg \<noteq> [] \<Longrightarrow> quartets (f3 s) = 0 \<Longrightarrow>
     \<forall>ob\<in>set tr. f3 (after ob) = [] \<and> r3 (after ob) = index_record_left s \<and>
       key ob = sha256 SHA256 (seq (index_record_left s) @ seq (r1 (after ob)) @ seq (r2 (after ob)))"
proof (induction lib SHA256 cfg s arbitrary: tr res rule: main_loop.induct)
  case (1 lib SHA256 cfg s)
  show ?case
  proof (cases "loop_body lib SHA256 cfg s")
    case (Stop s0)
    with "1.prems" show ?thesis by (simp add: main_loop_Stop)
  next
    case (Throw err)
    with "1.prems" show ?thesis by (auto simp: main_loop_Throw)
  next
    case (Continue ob)
    obtain tr' res' where r: "main_loop lib SHA256 cfg (after ob) = (tr', res')"
      by (cases "main_loop lib SHA256 cfg (after ob)")
    with Continue "1.prems" have tr: "tr = ob # tr'"
      by (simp_all add: main_loop_Continue)
    note ix = loop_body_index [OF "1.prems"(2) Continue]
    from ix(1) read_exhausted(2) [OF "1.prems"(3)] have e: "f3 (after ob) = []" by simp
    with ix(2) have l: "index_record_left (after ob) = index_record_left s"
      by (simp add: index_record_left_def)
    from e have q: "quartets (f3 (after ob)) = 0" by simp
    from "1.IH" [OF Continue r "1.prems"(2) q] l ix e tr show ?thesis by simp
  qed
qed

subsection \<open>Two runs on the same inputs\<close>

lemma loop_body_Stop_iff:
  "(\<exists>s0. loop_body lib SHA256 cfg s = Stop s0) \<longleftrightarrow>
     (\<not> fst (read_fastq_record (f1 s) (r1 s)) \<or> \<not> fst (read_fastq_record (f2 s) (r2 s)))"
  unfolding loop_body_def
  by (auto simp: Let_def split: prod.splits if_splits sum.splits)

lemma fingerprint_same:
  assumes "same_mode cfg cfg'" and "same_inputs s s'"
  shows "fst (fingerprint SHA256 cfg s) = fst (fingerprint SHA256 cfg' s')"
    and "f3 (snd (fingerprint SHA256 cfg s)) = f3 (snd (fingerprint SHA256 cfg' s'))"
    and "r3 (snd (fingerprint SHA256 cfg s)) = r3 (snd (fingerprint SHA256 cfg' s'))"
  using assms
  by (auto simp: fingerprint_def same_mode_def same_inputs_def Let_def split: prod.splits)

lemma loop_body_same:
  assumes m: "same_mode cfg cfg'" and i: "same_inputs s s'"
    and c: "loop_body lib SHA256 cfg s = Continue ob"
    and c': "loop_body lib' SHA256 cfg' s' = Continue ob'"
  shows "key ob = key ob'" and "same_inputs (after ob) (after ob')"
proof -
  from c obtain fl1 rec1 fl2 rec2 s3 s4 where
    a: "read_fastq_record (f1 s) (r1 s) = (True, fl1, rec1)"
       "read_fastq_record (f2 s) (r2 s) = (True, fl2, rec2)" and
    fp: "fingerprint SHA256 cfg (s\<lparr>f1 := fl1, r1 := rec1, f2 := fl2, r2 := rec2\<rparr>) = (key ob, s3)" and
    d: "query_store lib cfg s3 (key ob) = Inr (unique ob, s4)" and
    e: "after ob =
       (if unique ob
        then s4\<lparr>out1 := write_fastq_record (out1 s4) (r1 s4),
                out2 := write_fastq_record (out2 s4) (r2 s4),
                written := written s4 + 1\<rparr>
        else s4\<lparr>dup := dup s4 + 1\<rparr>)\<lparr>processed := processed s4 + 1\<rparr>"
    by (rule loop_body_ContinueE)
  from c' obtain fl1' rec1' fl2' rec2' s3' s4' where
    a': "read_fastq_record (f1 s') (r1 s') = (True, fl1', rec1')"
       "read_fastq_record (f2 s') (r2 s') = (True, fl2', rec2')" and
    fp': "fingerprint SHA256 cfg' (s'\<lparr>f1 := fl1', r1 := rec1', f2 := fl2', r2 := rec2'\<rparr>) = (key ob', s3')" and
    d': "query_store lib' cfg' s3' (key ob') = Inr (unique ob', s4')" and
    e': "after ob' =
       (if unique ob'
        then s4'\<lparr>out1 := write_fastq_record (out1 s4') (r1 s4'),
                out2 := write_fastq_record (out2 s4') (r2 s4'),
                written := written s4' + 1\<rparr>
        else s4'\<lparr>dup := dup s4' + 1\<rparr>)\<lparr>processed := processed s4' + 1\<rparr>"
    by (rule loop_body_ContinueE)
  from i a a' have eq: "fl1' = fl1" "rec1' = rec1" "fl2' = fl2" "rec2' = rec2"
    by (simp_all add: same_inputs_def)
  from i have i2: "same_inputs (s\<lparr>f1 := fl1, r1 := rec1, f2 := fl2, r2 := rec2\<rparr>)
      (s'\<lparr>f1 := fl1, r1 := rec1, f2 := fl2, r2 := rec2\<rparr>)"
    by (simp add: same_inputs_def)
  from fingerprint_same [OF m i2, of SHA256] fp fp' eq
  have k: "key ob = key ob'" and s3: "f3 s3 = f3 s3'" "r3 s3 = r3 s3'" by simp_all
  show "key ob = key ob'" by fact
  have "f1 (after ob) = fl1" "r1 (after ob) = rec1" "f2 (after ob) = fl2" "r2 (after ob) = rec2"
    "f3 (after ob) = f3 s3" "r3 (after ob) = r3 s3"
    by (simp_all add: e query_store_frame [OF d] fingerprint_frame [OF fp])
  moreover
  have "f1 (after ob') = fl1" "r1 (after ob') = rec1" "f2 (after ob') = fl2" "r2 (after ob') = rec2"
    "f3 (after ob') = f3 s3'" "r3 (after ob') = r3 s3'"
    by (simp_all add: e' query_store_frame [OF d'] fingerprint_frame [OF fp'] eq)
  ultimately show "same_inputs (after ob) (after ob')" using s3 by (simp add: same_inputs_def)
qed

lemma main_loop_keys_agree:
  "main_loop lib SHA256 cfg s = (tr, Inr sf) \<Longrightarrow> main_loop lib' SHA256 cfg' s' = (tr', Inr sf') \<Longrightarrow>
   same_mode cfg cfg' \<Longrightarrow> same_inputs s s' \<Longrightarrow> map key tr = map key tr'"
proof (induction lib SHA256 cfg s arbitrary: tr tr' s' rule: main_loop.induct)
  case (1 lib SHA256 cfg s)
  from "1.prems"(4) have rd: "read_fastq_record (f1 s') (r1 s') = read_fastq_record (f1 s) (r1 s)"
    "read_fastq_record (f2 s') (r2 s') = read_fastq_record (f2 s) (r2 s)"
    by (simp_all add: same_inputs_def)
  show ?case
  proof (cases "loop_body lib SHA256 cfg s")
    case (Stop s0)
    then have "\<exists>s0. loop_body lib SHA256 cfg s = Stop s0" by blast
    then have "\<exists>s0. loop_body lib' SHA256 cfg' s' = Stop s0"
      unfolding loop_body_Stop_iff rd .
    then obtain s0' where "loop_body lib' SHA256 cfg' s' = Stop s0'" by blast
    with Stop "1.prems"(1,2) show ?thesis by (simp add: main_loop_Stop)
  next
    case (Throw err)
    with "1.prems" show ?thesis by (simp add: main_loop_Throw)
  next
    case (Continue ob)
    then have "\<not> (\<exists>s0. loop_body lib SHA256 cfg s = Stop s0)" by simp
    then have ns: "\<not> (\<exists>s0. loop_body lib' SHA256 cfg' s' = Stop s0)"
      unfolding loop_body_Stop_iff rd .
    obtain ob' where c': "loop_body lib' SHA256 cfg' s' = Continue ob'"
    proof (cases "loop_body lib' SHA256 cfg' s'")
      case (Stop x)
      with ns show ?thesis by blast
    next
      case (Throw err)
      with "1.prems"(2) show ?thesis by (simp add: main_loop_Throw)
    next
      case (Continue x)
      then show ?thesis by (rule that)
    qed
    obtain tr1 res1 where r: "main_loop lib SHA256 cfg (after ob) = (tr1, res1)"
      by (cases "main_loop lib SHA256 cfg (after ob)")
    with Continue "1.prems"(1) have tr: "tr = ob # tr1" and res: "res1 = Inr sf"
      by (simp_all add: main_loop_Continue)
    obtain tr2 res2 where r': "main_loop lib' SHA256 cfg' (after ob') = (tr2, res2)"
      by (cases "main_loop lib' SHA256 cfg' (after ob')")
    with c' "1.prems"(2) have tr': "tr' = ob' # tr2" and res': "res2 = Inr sf'"
      by (simp_all add: main_loop_Continue)
    note same = loop_body_same [OF "1.prems"(3,4) Continue c']
    from "1.IH" [OF Continue r [unfolded res] r' [unfolded res'] "1.prems"(3) same(2)] same(1) tr tr'
    show ?thesis by simp
  qed
qed

subsection \<open>Reading back what was written\<close>

lemma gets_chunk_0 [simp]: "gets_chunk 0 f = ([], f)"
  by (cases f) simp_all








lemma c_string_id: "NUL \<notin> set l \<Longrightarrow> c_string l = l"
  by (auto simp: c_string_def takeWhile_eq_all_conv)

lemma c_string_idem [simp]: "c_string (c_string l) = c_string l"
  by (simp add: c_string_def takeWhile_idem)


lemma closed_rec_last: "closed_rec r \<Longrightarrow> last_rec r"
  unfolding closed_rec_def last_rec_def
proof
  fix rec
  assume "\<forall>rest rec. read_fastq_record (render r @ rest) rec = (True, rest, r)"
  then have "read_fastq_record (render r @ []) rec = (True, [], r)" by blast
  then show "read_fastq_record (render r) rec = (True, [], r)" by simp
qed



lemma records_Nil [simp]: "records [] = []"
  by (subst records.simps) simp



subsection \<open>Keys are hexadecimal strings\<close>

lemma hex_loop_concat: "hex_loop hash hex = hex @ concat (map sprintf_02x hash)"
  by (induction hash arbitrary: hex) simp_all

lemma hex_digit_not_NUL: "n < 16 \<Longrightarrow> hex_digit n \<noteq> NUL"
proof -
  assume "n < 16"
  then have "hex_digit n \<in> set ''0123456789abcdef''"
    unfolding hex_digit_def by (intro nth_mem) simp
  then show ?thesis by (auto simp: NUL_def)
qed

lemma sprintf_02x_not_NUL: "NUL \<notin> set (sprintf_02x b)"
proof -
  have "unat b < 256" using unsigned_less [of b, where ?'a = nat] by simp
  then have "unat b div 16 < 16" "unat b mod 16 < 16" by simp_all
  from hex_digit_not_NUL [OF this(1)] hex_digit_not_NUL [OF this(2)]
  show ?thesis by (auto simp: sprintf_02x_def)
qed

lemma c_string_sha256 [simp]: "c_string (sha256 SHA256 x) = sha256 SHA256 x"
  by (rule c_string_id) (auto simp: sha256_def hex_loop_concat sprintf_02x_not_NUL)

text \<open>
  The key is the hexadecimal rendering of the bytes that \<open>SHA256\<close> returns, and two keys
  are equal only if these bytes are.
\<close>

lemma char_of_eq: "char_of (n::nat) = c \<longleftrightarrow> n mod 256 = of_char c"
proof -
  have "char_of n = c \<longleftrightarrow> (of_char (char_of n) :: nat) = of_char c"
    by (simp only: of_char_eq_iff)
  then show ?thesis by simp
qed

lemma eq_char_of: "c = char_of (n::nat) \<longleftrightarrow> n mod 256 = of_char c"
  using char_of_eq [of n c] by auto

lemma hex_digit_char: "n < 16 \<Longrightarrow> hex_digit n = hex_char n"
proof -
  assume "n < 16"
  then have "n \<in> {0,1,2,3,4,5,6,7,8,9,10,11,12,13,14,15}" by (simp; arith)
  then show ?thesis by (auto simp: hex_digit_def hex_char_def eq_char_of)
qed


lemma sprintf_02x_hex: "sprintf_02x b = [hex_char (unat b div 16), hex_char (unat b mod 16)]"
proof -
  have "unat b < 256" using unsigned_less [of b, where ?'a = nat] by simp
  then have a: "unat b div 16 < 16" by arith
  have c: "unat b mod 16 < 16" by simp
  show ?thesis
    unfolding sprintf_02x_def hex_digit_char [OF a] hex_digit_char [OF c] by (rule refl)
qed



lemma sha256_hex_of: "sha256 SHA256 data = hex_of (SHA256 data)"
proof -
  have "sprintf_02x = (\<lambda>b. [hex_char (unat b div 16), hex_char (unat b mod 16)])"
    by (rule ext) (rule sprintf_02x_hex)
  then show ?thesis unfolding sha256_def hex_loop_concat hex_of_def by simp
qed

lemma hex_val_char: "n < 16 \<Longrightarrow> hex_val (hex_char n) = n"
  by (simp add: hex_val_def hex_char_def)

lemma hex_char_inj:
  assumes "m < 16" and "n < 16" and "hex_char m = hex_char n"
  shows "m = n"
proof -
  from assms(3) have "hex_val (hex_char m) = hex_val (hex_char n)" by (rule arg_cong)
  then show ?thesis unfolding hex_val_char [OF assms(1)] hex_val_char [OF assms(2)] .
qed

lemma byte_digits:
  assumes "unat (a :: 8 word) div 16 = unat (b :: 8 word) div 16"
    and "unat a mod 16 = unat b mod 16"
  shows "a = b"
proof -
  have "unat a = unat a div 16 * 16 + unat a mod 16" by simp
  also have "\<dots> = unat b div 16 * 16 + unat b mod 16" unfolding assms ..
  also have "\<dots> = unat b" by simp
  finally show ?thesis by (simp add: word_unat_eq_iff)
qed

lemma hex_of_Cons:
  "hex_of (b # bs) = hex_char (unat b div 16) # hex_char (unat b mod 16) # hex_of bs"
  by (simp add: hex_of_def)

lemma hex_of_Nil: "hex_of [] = []"
  by (simp add: hex_of_def)

lemma hex_of_inj: "hex_of x = hex_of y \<Longrightarrow> x = y"
proof (induction x arbitrary: y)
  case Nil
  then show ?case by (cases y) (simp_all add: hex_of_Nil hex_of_Cons)
next
  case (Cons a x)
  then obtain b y' where y: "y = b # y'" by (cases y) (simp_all add: hex_of_Nil hex_of_Cons)
  from Cons.prems have h: "hex_char (unat a div 16) = hex_char (unat b div 16)"
    "hex_char (unat a mod 16) = hex_char (unat b mod 16)" "hex_of x = hex_of y'"
    unfolding y hex_of_Cons by simp_all
  have "unat a < 256" "unat b < 256"
    using unsigned_less [of a, where ?'a = nat] unsigned_less [of b, where ?'a = nat] by simp_all
  then have "unat a div 16 < 16" "unat b div 16 < 16" by simp_all
  from hex_char_inj [OF this h(1)] have d: "unat a div 16 = unat b div 16" .
  have "unat a mod 16 < 16" "unat b mod 16 < 16" by simp_all
  from hex_char_inj [OF this h(2)] have m: "unat a mod 16 = unat b mod 16" .
  from byte_digits [OF d m] Cons.IH [OF h(3)] y show ?case by simp
qed

lemma sha256_inj: "sha256 SHA256 x = sha256 SHA256 y \<longleftrightarrow> SHA256 x = SHA256 y"
proof
  assume "sha256 SHA256 x = sha256 SHA256 y"
  then show "SHA256 x = SHA256 y" unfolding sha256_hex_of by (rule hex_of_inj)
next
  assume "SHA256 x = SHA256 y"
  then show "sha256 SHA256 x = sha256 SHA256 y" by (simp add: sha256_def)
qed



subsection \<open>What the exact stores answer\<close>


lemma rc_of_not_DONE [simp]: "rc_of x \<noteq> SQLITE_DONE"
  by (cases x) simp_all




lemma store_keys_cong:
  "seen s' = seen s \<Longrightarrow> sqlite_store s' = sqlite_store s \<Longrightarrow> store_keys cfg s' = store_keys cfg s"
  by (simp add: store_keys_def)






subsection \<open>Runs with an exact store\<close>






subsection \<open>Deduplication of a list\<close>




lemma first_seen_fixed:
  "distinct ks \<Longrightarrow> set ks \<inter> S = {} \<Longrightarrow> first_seen S ks = replicate (length ks) True"
  by (induction ks arbitrary: S) auto

lemma dedup_empty: "ps \<noteq> [] \<Longrightarrow> dedup kf {} ps \<noteq> []"
  by (cases ps) simp_all





lemma readable_last_rec: "readable rs \<Longrightarrow> r \<in> set rs \<Longrightarrow> last_rec r"
  by (induction rs) (auto dest: closed_rec_last split: if_splits)



subsection \<open>Lines longer than a buffer\<close>

lemma gets_chunk_full:
  "newline \<notin> set l \<Longrightarrow> gets_chunk (length l) (l @ rest) = (l, rest)"
  by (induction l) auto

lemma gets_chunk_line:
  "newline \<notin> set l \<Longrightarrow> length l < n \<Longrightarrow>
     gets_chunk n (l @ newline # rest) = (l @ [newline], rest)"
proof (induction l arbitrary: n)
  case Nil
  then show ?case by (cases n) simp_all
next
  case (Cons a l)
  then obtain k where "n = Suc k" "length l < k" by (cases n) simp_all
  with Cons show ?case by auto
qed

lemma gz_lines_full:
  assumes "newline \<notin> set l" and "l \<noteq> []"
  shows "gz_lines (Suc (length l)) (l @ rest) = l # gz_lines (Suc (length l)) rest"
  using assms gets_chunk_full [OF assms(1), of rest]
  by (simp add: gz_lines.simps [of "Suc (length l)" "l @ rest"] gzgets_def)

lemma gz_lines_line:
  assumes "newline \<notin> set l" and "Suc (length l) < len"
  shows "gz_lines len (l @ newline # rest) = (l @ [newline]) # gz_lines len rest"
  using assms gets_chunk_line [OF assms(1), of "len - 1" rest]
  by (simp add: gz_lines.simps [of len "l @ newline # rest"] gzgets_def)

lemma long_line [simp]:
  "length (long_line c) = 8191" "long_line c \<noteq> []" "c \<noteq> CHR 0x0A \<Longrightarrow> CHR 0x0A \<notin> set (long_line c)"
  by (auto simp: long_line_def)

lemma gz_lines_long_8192:
  "gz_lines 8192 long_reads =
     [''@r1\<newline>'', long_line (CHR ''A''), ''\<newline>'', ''+\<newline>'', long_line (CHR ''I''), ''\<newline>'',
      ''@r2\<newline>'', long_line (CHR ''C''), ''\<newline>'', ''+\<newline>'', long_line (CHR ''I''), ''\<newline>'']"
proof -
  have f: "gz_lines 8192 (long_line c @ rest) = long_line c # gz_lines 8192 rest"
    if "c \<noteq> CHR 0x0A" for c rest
    using gz_lines_full [of "long_line c" rest] that by (simp add: newline_def)
  have l: "gz_lines 8192 (l @ CHR 0x0A # rest) = (l @ [CHR 0x0A]) # gz_lines 8192 rest"
    if "CHR 0x0A \<notin> set l" "length l < 8191" for l rest
    using gz_lines_line [of l 8192 rest] that by (simp add: newline_def)
  have l3: "gz_lines 8192 (a # b # c # CHR 0x0A # rest) = [a, b, c, CHR 0x0A] # gz_lines 8192 rest"
    if "CHR 0x0A \<notin> {a, b, c}" for a b c rest
    using l [of "[a, b, c]" rest] that by simp
  have l1: "gz_lines 8192 (a # CHR 0x0A # rest) = [a, CHR 0x0A] # gz_lines 8192 rest"
    if "CHR 0x0A \<noteq> a" for a rest
    using l [of "[a]" rest] that by simp
  have l0: "gz_lines 8192 (CHR 0x0A # rest) = [CHR 0x0A] # gz_lines 8192 rest" for rest
    using l [of "[]" rest] by simp
  show ?thesis
    unfolding long_reads_def
    by (simp add: l3 l1 l0 f)
qed

lemma gz_lines_long_10000:
  "gz_lines 10000 long_reads =
     [''@r1\<newline>'', long_line (CHR ''A'') @ ''\<newline>'', ''+\<newline>'', long_line (CHR ''I'') @ ''\<newline>'',
      ''@r2\<newline>'', long_line (CHR ''C'') @ ''\<newline>'', ''+\<newline>'', long_line (CHR ''I'') @ ''\<newline>'']"
proof -
  have l: "gz_lines 10000 (l @ CHR 0x0A # rest) = (l @ [CHR 0x0A]) # gz_lines 10000 rest"
    if "CHR 0x0A \<notin> set l" "length l < 9999" for l rest
    using gz_lines_line [of l 10000 rest] that by (simp add: newline_def)
  have f: "gz_lines 10000 (long_line c @ CHR 0x0A # rest) = (long_line c @ [CHR 0x0A]) # gz_lines 10000 rest"
    if "c \<noteq> CHR 0x0A" for c rest
    by (rule l) (simp_all add: that)
  have l3: "gz_lines 10000 (a # b # c # CHR 0x0A # rest) = [a, b, c, CHR 0x0A] # gz_lines 10000 rest"
    if "CHR 0x0A \<notin> {a, b, c}" for a b c rest
    using l [of "[a, b, c]" rest] that by simp
  have l1: "gz_lines 10000 (a # CHR 0x0A # rest) = [a, CHR 0x0A] # gz_lines 10000 rest"
    if "CHR 0x0A \<noteq> a" for a rest
    using l [of "[a]" rest] that by simp
  show ?thesis
    unfolding long_reads_def
    by (simp add: l3 l1 f)
qed

subsection \<open>Runs of the whole program\<close>


text \<open>
  A run whose input files can be opened and whose store cannot throw processes the pairs
  of the leading records of the two read streams, as the loop finds them, and ends
  normally.
\<close>

lemma main_pairs:
  assumes "read1_file cfg \<noteq> []" and "read2_file cfg \<noteq> []"
    and "files e (read1_file cfg) = Some fl1" and "files e (read2_file cfg) = Some fl2"
    and "index_file cfg \<noteq> [] \<longrightarrow> files e (index_file cfg) \<noteq> None"
    and "backend cfg = Sqlite \<longrightarrow> db_open_ok e \<and> PrepareFails \<notin> set (db_faults e)"
  obtains tr s where
    "main lib SHA256 cfg e = (Exit 0, tr, Some s)"
    "map pair_of tr = zip (records (stream (opened e cfg) (read1_file cfg)))
                          (records (stream (opened e cfg) (read2_file cfg)))"
    "processed s = of_nat (length tr)"
proof -
  let ?f1 = "stream (opened e cfg) (read1_file cfg)"
  let ?f2 = "stream (opened e cfg) (read2_file cfg)"
  let ?f3 = "if index_file cfg \<noteq> [] then stream (opened e cfg) (index_file cfg) else []"
  let ?o1 = "fst (gzopen_wb e (out1_name cfg))"
  let ?o2 = "fst (gzopen_wb e (out2_name cfg))"
  from backend_init_no_throw [OF assms(6)] obtain store bf
    where bi: "backend_init lib cfg e (count_lines fl1 0 div 4) = Inr (store, bf)"
      and nt: "no_throw cfg (start_state ?f1 ?f2 ?f3 ?o1 ?o2 store bf)"
    by blast
  let ?s0 = "start_state ?f1 ?f2 ?f3 ?o1 ?o2 store bf"
  obtain tr res where ml: "main_loop lib SHA256 cfg ?s0 = (tr, res)"
    by (cases "main_loop lib SHA256 cfg ?s0")
  from main_loop_returns [OF nt, of lib SHA256] ml obtain s where res: "res = Inr s" by auto
  note ml' = ml [unfolded res]
  have m: "main lib SHA256 cfg e = (Exit 0, tr, Some s)"
    by (rule main_run [OF assms(1-5) bi ml'])
  have f: "f1 ?s0 = ?f1" "f2 ?s0 = ?f2" "processed ?s0 = 0" by (simp_all add: start_state_def)
  from main_loop_pairs [OF ml'] f
  have p: "map pair_of tr = zip (records ?f1) (records ?f2)" by simp
  from main_loop_processed [OF ml'] f have "processed s = of_nat (length tr)" by simp
  from that [OF m p this] show ?thesis .
qed



section \<open>The claims\<close>

subsection \<open>C1: the key in name-embedded-barcode mode\<close>

text \<open>
  C1 says that with \<open>barcode_in_name\<close> and no index stream the fingerprint is the
  digest of barcode, sequence of read 1 and sequence of read 2, so that two pairs with the
  same sequences and different barcodes are both unique and both written. The program
  does otherwise: on two such pairs (barcodes \<open>AA\<close> and \<open>CC\<close>), with the in-memory
  backend and whatever the digest is, both keys are the digest of the two sequences alone,
  the second pair is flagged as a duplicate and only the first is written.
\<close>

theorem barcode_mode_second_pair_duplicate:
  "case main lib SHA256 (config_of [] True Memory) two_barcodes of
     (ex, tr, fin) \<Rightarrow>
       ex = Exit 0 \<and>
       map key tr = [sha256 SHA256 ''AC\<newline>GT\<newline>'', sha256 SHA256 ''AC\<newline>GT\<newline>''] \<and>
       map unique tr = [True, False] \<and>
       map_option written fin = Some 1 \<and> map_option dup fin = Some 1 \<and>
       map_option out1 fin = Some (Some ''@r:AA 1\<newline>AC\<newline>+\<newline>II\<newline>'')"
  by (simp add: two_barcodes_def main_def count_fastq_records_def gzopen_rb_def gzopen_wb_def
      out1_name_def out2_name_def stream_def one_file_def filename_def backend_init_def
      start_state_def loop_body_def read_fastq_record_def
      gzgets_def newline_def NUL_def c_string_def fingerprint_def query_store_def
      write_fastq_record_def gzputs_def FastqRecord_new_def Let_def
      extract_barcode_from_name_def main_loop.simps count_lines.simps env_of_def config_of_def)

subsection \<open>C2: the run statistics\<close>

text \<open>
  C2: in every run, with any backend and any inputs, \<open>processed = written + dup\<close> holds
  after every processed pair and at the exit of the loop, and the three counters never
  decrease from one observation to the next. The counters are 64-bit; the second part is
  proved for a first read stream of fewer than \<open>2 ^ 64\<close> bytes, which keeps them from
  wrapping around.
\<close>

theorem run_statistics_invariant:
  assumes "main lib SHA256 cfg e = (ex, tr, fin)"
  shows "(\<forall>s\<in>set (observed tr fin). processed s = written s + dup s) \<and>
    ((\<forall>fl. files e (read1_file cfg) = Some fl \<longrightarrow> length fl < 2 ^ 64) \<longrightarrow>
       sorted_wrt stats_le (observed tr fin))"
proof -
  from main_cases [OF assms] show ?thesis
  proof
    assume "tr = [] \<and> fin = None \<and> ex \<noteq> Exit 0"
    then show ?thesis by (simp add: observed_def)
  next
    assume "\<exists>file1 file2 file3 o1 o2 store bf res.
       files e (read1_file cfg) = Some file1 \<and> files e (read2_file cfg) = Some file2 \<and>
       backend_init lib cfg e (count_lines file1 0 div 4) = Inr (store, bf) \<and>
       main_loop lib SHA256 cfg
         (start_state (stream (opened e cfg) (read1_file cfg))
            (stream (opened e cfg) (read2_file cfg)) file3 o1 o2 store bf) = (tr, res) \<and>
       fin = (case res of Inl err \<Rightarrow> None | Inr s \<Rightarrow> Some s) \<and>
       ex = (case res of Inl err \<Rightarrow> Uncaught err | Inr s \<Rightarrow> Exit 0)"
    then obtain file1 file2 file3 o1 o2 store bf res
      where fl: "files e (read1_file cfg) = Some file1"
        and ml: "main_loop lib SHA256 cfg
         (start_state (stream (opened e cfg) (read1_file cfg))
            (stream (opened e cfg) (read2_file cfg)) file3 o1 o2 store bf) = (tr, res)"
        and fin: "fin = (case res of Inl err \<Rightarrow> None | Inr s \<Rightarrow> Some s)"
      by blast
    let ?s0 = "start_state (stream (opened e cfg) (read1_file cfg))
            (stream (opened e cfg) (read2_file cfg)) file3 o1 o2 store bf"
    have "processed ?s0 = written ?s0 + dup ?s0"
      by (simp add: start_state_def)
    from main_loop_invariant [OF ml this] fin
    have inv: "\<forall>s\<in>set (observed tr fin). processed s = written s + dup s"
      by (auto simp: observed_def split: sum.splits)
    have "sorted_wrt stats_le (observed tr fin)" if "length file1 < 2 ^ 64"
    proof -
      from length_stream_opened [of e cfg "read1_file cfg"] fl that
      have "length (stream (opened e cfg) (read1_file cfg)) < 2 ^ 64"
        by (simp add: stream_def)
      from main_loop_nondecreasing [OF ml no_wrap_start [OF this]] fin show ?thesis by simp
    qed
    with inv fl show ?thesis by simp
  qed
qed

theorem run_statistics_invariant_witness:
  "files two_barcodes (read1_file (config_of [] False Memory))
     = Some ''@r:AA 1\<newline>AC\<newline>+\<newline>II\<newline>@r:CC 1\<newline>AC\<newline>+\<newline>II\<newline>'' \<and>
   map (\<lambda>s. (processed s, written s, dup s))
     (observed (fst (snd (main set_filter bytes_digest (config_of [] False Memory) two_barcodes)))
        (snd (snd (main set_filter bytes_digest (config_of [] False Memory) two_barcodes))))
     = [(1, 1, 0), (2, 1, 1), (2, 1, 1)] \<and>
   list_all (\<lambda>s. processed s = written s + dup s)
     (observed (fst (snd (main set_filter bytes_digest (config_of [] False Memory) two_barcodes)))
        (snd (snd (main set_filter bytes_digest (config_of [] False Memory) two_barcodes)))) \<and>
   sorted_wrt stats_le
     (observed (fst (snd (main set_filter bytes_digest (config_of [] False Memory) two_barcodes)))
        (snd (snd (main set_filter bytes_digest (config_of [] False Memory) two_barcodes))))"
proof -
  let ?m = "main set_filter bytes_digest (config_of [] False Memory) two_barcodes"
  have m: "?m = (fst ?m, fst (snd ?m), snd (snd ?m))" by simp
  have f: "files two_barcodes (read1_file (config_of [] False Memory))
     = Some ''@r:AA 1\<newline>AC\<newline>+\<newline>II\<newline>@r:CC 1\<newline>AC\<newline>+\<newline>II\<newline>''"
    by (simp add: two_barcodes_def env_of_def config_of_def)
  have v: "map (\<lambda>s. (processed s, written s, dup s)) (observed (fst (snd ?m)) (snd (snd ?m)))
     = [(1, 1, 0), (2, 1, 1), (2, 1, 1)]"
    by (simp add: two_barcodes_def run_defs)
  from run_statistics_invariant [OF m] f v show ?thesis
    by (simp add: list_all_iff)
qed

subsection \<open>C3: failures of the SQLite store\<close>

lemma fingerprint_store:
  "fingerprint SHA256 cfg s = (k, s') \<Longrightarrow>
     sqlite_store s' = sqlite_store s \<and> bloom s' = bloom s \<and> seen s' = seen s"
  by (auto simp: fingerprint_def Let_def split: if_splits prod.splits)

text \<open>
  C3 says that any failure of the attempted insertion other than the violation of the
  uniqueness constraint is fatal and is never mapped to Unique or Duplicate. The program
  does otherwise: \<^verbatim>\<open>is_unique\<close> answers \<open>false\<close> whenever \<^verbatim>\<open>sqlite3_step\<close> returns
  anything but \<^verbatim>\<open>SQLITE_DONE\<close>, although it throws when the statement cannot be
  prepared, as the constructor does when the database cannot be opened. With one pair to
  process and an I/O error injected into \<^verbatim>\<open>sqlite3_step\<close>, the run ends with exit code
  0, the pair is counted as a duplicate and nothing is written.
\<close>

theorem step_failure_counted_as_duplicate:
  "(case main set_filter bytes_digest (config_of [] False Sqlite)
           (one_pair\<lparr>db_faults := [StepFails IoErr]\<rparr>) of
      (ex, tr, fin) \<Rightarrow>
        ex = Exit 0 \<and> map unique tr = [False] \<and>
        map_option dup fin = Some 1 \<and> map_option written fin = Some 0 \<and>
        map_option out1 fin = Some (Some []))"
  by (simp add: one_pair_def run_defs)

text \<open>
  What \<^verbatim>\<open>is_unique\<close> does with each outcome of the two calls: a failure to prepare the
  statement throws, and the exception leaves the loop at once; whatever \<^verbatim>\<open>sqlite3_step\<close>
  returns other than \<^verbatim>\<open>SQLITE_DONE\<close>, the violation of the constraint and any other
  failure alike, is answered Duplicate, and the table is left as it was; \<^verbatim>\<open>SQLITE_DONE\<close>
  is answered Unique.
\<close>

theorem is_unique_outcomes:
  "(next_fault db = PrepareFails \<longrightarrow>
      is_unique db k = Inl (RuntimeError ''SQLite prepare failed'') \<and>
      (backend cfg = Sqlite \<and> sqlite_store s = Some db \<and>
       (\<forall>s'. loop_body lib SHA256 cfg s \<noteq> Stop s') \<longrightarrow>
         main_loop lib SHA256 cfg s = ([], Inl (RuntimeError ''SQLite prepare failed'')))) \<and>
   (\<forall>x. next_fault db = StepFails x \<longrightarrow>
      is_unique db k = Inr (False, db\<lparr>faults := tl (faults db)\<rparr>)) \<and>
   (next_fault db = NoFault \<longrightarrow>
      is_unique db k =
        Inr (c_string k \<notin> hashes db,
             db\<lparr>hashes := insert (c_string k) (hashes db), faults := tl (faults db)\<rparr>))"
proof -
  have a: "is_unique db k = Inl (RuntimeError ''SQLite prepare failed'')"
    if "next_fault db = PrepareFails" for k
    using that by (simp add: is_unique_def sqlite3_prepare_v2_def)
  have b: "main_loop lib SHA256 cfg s = ([], Inl (RuntimeError ''SQLite prepare failed''))"
    if p: "next_fault db = PrepareFails" and be: "backend cfg = Sqlite"
      and st: "sqlite_store s = Some db" and ns: "\<forall>s'. loop_body lib SHA256 cfg s \<noteq> Stop s'"
  proof -
    have "loop_body lib SHA256 cfg s = Throw (RuntimeError ''SQLite prepare failed'')"
      using ns be st a [OF p] unfolding loop_body_def
      by (auto simp: Let_def query_store_def split: prod.splits dest!: fingerprint_store)
    then show ?thesis by (rule main_loop_Throw)
  qed
  have c: "is_unique db k = Inr (False, db\<lparr>faults := tl (faults db)\<rparr>)"
    if "next_fault db = StepFails x" for x
    using that by (cases x) (simp_all add: is_unique_def sqlite3_prepare_v2_def sqlite3_step_def)
  have d: "is_unique db k =
        Inr (c_string k \<notin> hashes db,
             db\<lparr>hashes := insert (c_string k) (hashes db), faults := tl (faults db)\<rparr>)"
    if "next_fault db = NoFault"
    using that
    by (auto simp: is_unique_def sqlite3_prepare_v2_def sqlite3_step_def insert_absorb)
  from a b c d show ?thesis by blast
qed

theorem is_unique_outcomes_witness:
  "next_fault \<lparr>hashes = {}, faults = [PrepareFails]\<rparr> = PrepareFails \<and>
   is_unique \<lparr>hashes = {}, faults = [PrepareFails]\<rparr> ''41''
     = Inl (RuntimeError ''SQLite prepare failed'') \<and>
   backend (config_of [] False Sqlite) = Sqlite \<and>
   main_loop set_filter bytes_digest (config_of [] False Sqlite)
      (start_state ''@r1\<newline>AC\<newline>+\<newline>II\<newline>'' ''@r1\<newline>GT\<newline>+\<newline>II\<newline>'' [] (Some []) (Some [])
         (Some \<lparr>hashes = {}, faults = [PrepareFails]\<rparr>) None)
     = ([], Inl (RuntimeError ''SQLite prepare failed'')) \<and>
   next_fault \<lparr>hashes = {}, faults = [StepFails Full]\<rparr> = StepFails Full \<and>
   is_unique \<lparr>hashes = {}, faults = [StepFails Full]\<rparr> ''41''
     = Inr (False, \<lparr>hashes = {}, faults = []\<rparr>) \<and>
   next_fault \<lparr>hashes = {''41''}, faults = []\<rparr> = NoFault \<and>
   is_unique \<lparr>hashes = {''41''}, faults = []\<rparr> ''41''
     = Inr (False, \<lparr>hashes = {''41''}, faults = []\<rparr>) \<and>
   is_unique \<lparr>hashes = {''41''}, faults = []\<rparr> ''42''
     = Inr (True, \<lparr>hashes = {''42'', ''41''}, faults = []\<rparr>)"
proof -
  let ?p = "\<lparr>hashes = {}, faults = [PrepareFails]\<rparr>"
  let ?f = "\<lparr>hashes = {}, faults = [StepFails Full]\<rparr>"
  let ?n = "\<lparr>hashes = {''41''}, faults = []\<rparr>"
  let ?s = "start_state ''@r1\<newline>AC\<newline>+\<newline>II\<newline>'' ''@r1\<newline>GT\<newline>+\<newline>II\<newline>'' [] (Some []) (Some [])
         (Some ?p) (None :: string set option)"
  have p: "next_fault ?p = PrepareFails" and f: "next_fault ?f = StepFails Full"
    and n: "next_fault ?n = NoFault"
    by (simp_all add: next_fault_def)
  have be: "backend (config_of [] False Sqlite) = Sqlite" by (simp add: config_of_def)
  have st: "sqlite_store ?s = Some ?p" by (simp add: start_state_def)
  have ns: "\<forall>s'. loop_body set_filter bytes_digest (config_of [] False Sqlite) ?s \<noteq> Stop s'"
    by (simp add: run_defs)
  from is_unique_outcomes [of ?p "''41''" "config_of [] False Sqlite" ?s set_filter bytes_digest]
       is_unique_outcomes [of ?f "''41''" "config_of [] False Sqlite" ?s set_filter bytes_digest]
       is_unique_outcomes [of ?n "''41''" "config_of [] False Sqlite" ?s set_filter bytes_digest]
       is_unique_outcomes [of ?n "''42''" "config_of [] False Sqlite" ?s set_filter bytes_digest]
       p f n be st ns
  show ?thesis by (simp add: c_string_def NUL_def)
qed

subsection \<open>C4: streams that cannot be opened\<close>

text \<open>
  The three input handles are tested after \<^verbatim>\<open>gzopen\<close>, and \<^verbatim>\<open>count_fastq_records\<close>
  throws when it cannot open the first read file: no pair is processed.
\<close>

lemma unopenable_input_fatal:
  assumes "files e (read1_file cfg) = None \<or> files e (read2_file cfg) = None \<or>
           (index_file cfg \<noteq> [] \<and> files e (index_file cfg) = None)"
  shows "fst (main lib SHA256 cfg e) \<noteq> Exit 0 \<and> snd (main lib SHA256 cfg e) = ([], None)"
  using assms
  by (auto simp: main_def count_fastq_records_def gzopen_rb_def Let_def
           split: option.splits sum.splits prod.splits)

text \<open>
  C4 says that a failure to open any stream, the two output streams included, aborts the
  program with a nonzero exit code before any pair is processed. The handles \<^verbatim>\<open>out1\<close>
  and \<^verbatim>\<open>out2\<close> are never tested: when neither output file can be opened the pair of the
  input is processed and counted as written, nothing is written anywhere, and the exit
  code is 0.
\<close>

theorem unopenable_outputs_not_fatal:
  "(case main set_filter bytes_digest (config_of [] False Memory)
           (one_pair\<lparr>writable := (\<lambda>p. False)\<rparr>) of
      (ex, tr, fin) \<Rightarrow>
        ex = Exit 0 \<and> map unique tr = [True] \<and>
        map_option processed fin = Some 1 \<and> map_option written fin = Some 1 \<and>
        map_option out1 fin = Some None \<and> map_option out2 fin = Some None)"
  by (simp add: one_pair_def run_defs)


lemma quartets_ten: "quartets ten_quartets = 10"
  by (simp add: quartets_def ten_quartets_def gz_lines.simps gzgets_def newline_def)

lemma quartets_eight: "quartets eight_quartets = 8"
  by (simp add: quartets_def eight_quartets_def gz_lines.simps gzgets_def newline_def)

subsection \<open>C5: plain mode\<close>




subsection \<open>C6: the shorter stream ends the processing\<close>

text \<open>
  A read file that bears the name of an output file, or whose path leads to that file, is
  emptied when the output is opened, before its first line is read: no pair is processed. Two read files of the same name in
  two directories have one output file between them: the pairs are processed, and what
  the file holds in the end is not determined.
\<close>

lemma input_named_as_output:
  "(case main set_filter bytes_digest
           \<lparr>read1_file = ''R1.fq'', read2_file = ''nodup_R1.fq'', index_file = [],
            barcode_in_name = False, backend = Memory\<rparr> second_input_is_output of
      (ex, tr, fin) \<Rightarrow> ex = Exit 0 \<and> tr = [] \<and> map_option processed fin = Some 0) \<and>
   (case main set_filter bytes_digest
           \<lparr>read1_file = ''R1.fq'', read2_file = ''./nodup_R1.fq'', index_file = [],
            barcode_in_name = False, backend = Memory\<rparr> second_input_linked of
      (ex, tr, fin) \<Rightarrow> ex = Exit 0 \<and> tr = [] \<and> map_option processed fin = Some 0)"
  by (simp add: second_input_is_output_def second_input_linked_def run_defs)

lemma outputs_of_one_name:
  "(case main set_filter bytes_digest
           \<lparr>read1_file = ''a/R.fq'', read2_file = ''b/R.fq'', index_file = [],
            barcode_in_name = False, backend = Memory\<rparr> same_base_names of
      (ex, tr, fin) \<Rightarrow>
        ex = Exit 0 \<and> map unique tr = [True, True] \<and>
        map_option (files_after same_base_names
           \<lparr>read1_file = ''a/R.fq'', read2_file = ''b/R.fq'', index_file = [],
            barcode_in_name = False, backend = Memory\<rparr>) fin = Some None)"
  by (simp add: same_base_names_def files_after_def run_defs)

text \<open>
  C6: when both read files can be opened (and the store does not throw), the run ends
  with exit code 0 after exactly as many passes as the stream with fewer complete quartets
  has quartets; the pairs processed are the leading records of the two streams, paired in
  order, and what is left of the longer stream is dropped. A stream ends, without any
  error, where fewer than four lines are left. Nothing is printed about the records that
  are dropped: the messages of the run are the two of the pre-scan, the reports of
  progress and the summary, with the counters. The streams are those that the loop reads;
  they are the contents of the two read files when neither is one of the two output
  files. The example has ten and eight quartets.
\<close>

theorem truncation_to_shorter_stream:
  assumes "read1_file cfg \<noteq> []" and "read2_file cfg \<noteq> []"
    and "files e (read1_file cfg) = Some fl1" and "files e (read2_file cfg) = Some fl2"
    and "index_file cfg \<noteq> [] \<longrightarrow> files e (index_file cfg) \<noteq> None"
    and "backend cfg = Sqlite \<longrightarrow> db_open_ok e \<and> PrepareFails \<notin> set (db_faults e)"
  shows "\<exists>tr s. main lib SHA256 cfg e = (Exit 0, tr, Some s) \<and>
           length tr = min (quartets (stream (opened e cfg) (read1_file cfg)))
                           (quartets (stream (opened e cfg) (read2_file cfg))) \<and>
           map pair_of tr = zip (records (stream (opened e cfg) (read1_file cfg)))
                                (records (stream (opened e cfg) (read2_file cfg))) \<and>
           processed s = of_nat (length tr) \<and>
           cerr lib SHA256 cfg e =
             [CountingReads (read1_file cfg), TotalReads (count_lines fl1 0 div 4)] @
             concat (map (\<lambda>ob. progress (count_lines fl1 0 div 4) (after ob)) tr) @
             [Done, Processed (processed s), Written (written s), Duplicates (dup s)] \<and>
           (inputs_kept cfg e \<longrightarrow>
              length tr = min (quartets fl1) (quartets fl2) \<and>
              map pair_of tr = zip (records fl1) (records fl2) \<and>
              processed s = of_nat (min (quartets fl1) (quartets fl2)))"
proof -
  let ?f1 = "stream (opened e cfg) (read1_file cfg)"
  let ?f2 = "stream (opened e cfg) (read2_file cfg)"
  from assms obtain tr s where
    m: "main lib SHA256 cfg e = (Exit 0, tr, Some s)" and
    p: "map pair_of tr = zip (records ?f1) (records ?f2)" and
    pr: "processed s = of_nat (length tr)"
    by (rule main_pairs [of _ _ _ _ lib SHA256])
  from arg_cong [OF p, of length] have l: "length tr = min (quartets ?f1) (quartets ?f2)"
    by (simp add: length_records)
  have c: "cerr lib SHA256 cfg e =
             [CountingReads (read1_file cfg), TotalReads (count_lines fl1 0 div 4)] @
             concat (map (\<lambda>ob. progress (count_lines fl1 0 div 4) (after ob)) tr) @
             [Done, Processed (processed s), Written (written s), Duplicates (dup s)]"
    using assms(1-5) m
    by (auto simp: cerr_def count_fastq_records_def gzopen_rb_def summary_def)
  have k: "length tr = min (quartets fl1) (quartets fl2) \<and>
      map pair_of tr = zip (records fl1) (records fl2) \<and>
      processed s = of_nat (min (quartets fl1) (quartets fl2))" if "inputs_kept cfg e"
    using l p pr by (simp add: stream_kept [OF that assms(3,4)])
  from m l p pr c k show ?thesis by blast
qed

theorem truncation_to_shorter_stream_witness:
  "quartets ten_quartets = 10 \<and> quartets eight_quartets = 8 \<and>
   inputs_kept (config_of [] False Memory) ten_and_eight \<and>
   fst (main set_filter bytes_digest (config_of [] False Memory) ten_and_eight) = Exit 0 \<and>
   length (fst (snd (main set_filter bytes_digest (config_of [] False Memory) ten_and_eight))) = 8 \<and>
   map_option processed (snd (snd (main set_filter bytes_digest (config_of [] False Memory) ten_and_eight)))
     = Some 8 \<and>
   cerr set_filter bytes_digest (config_of [] False Memory) ten_and_eight
     = [CountingReads ''R1.fq'', TotalReads 10, Done, Processed 8, Written 1, Duplicates 7]"
proof -
  let ?cfg = "config_of [] False Memory"
  have h: "read1_file ?cfg \<noteq> []" "read2_file ?cfg \<noteq> []"
    "files ten_and_eight (read1_file ?cfg) = Some ten_quartets"
    "files ten_and_eight (read2_file ?cfg) = Some eight_quartets"
    "index_file ?cfg \<noteq> [] \<longrightarrow> files ten_and_eight (index_file ?cfg) \<noteq> None"
    "backend ?cfg = Sqlite \<longrightarrow> db_open_ok ten_and_eight \<and> PrepareFails \<notin> set (db_faults ten_and_eight)"
    by (simp_all add: config_of_def ten_and_eight_def env_of_def)
  have ik: "inputs_kept ?cfg ten_and_eight"
    by (simp add: inputs_kept_def one_file_def out1_name_def out2_name_def filename_def
          config_of_def ten_and_eight_def env_of_def)
  have ce: "cerr set_filter bytes_digest ?cfg ten_and_eight
     = [CountingReads ''R1.fq'', TotalReads 10, Done, Processed 8, Written 1, Duplicates 7]"
    by (simp add: cerr_def progress_def summary_def ten_and_eight_def ten_quartets_def
          eight_quartets_def run_defs)
  from truncation_to_shorter_stream [OF h, of set_filter bytes_digest] ik ce
  show ?thesis by (auto simp: quartets_ten quartets_eight)
qed

subsection \<open>C7: no key is written twice\<close>




subsection \<open>C8: the derivation of the key is deterministic\<close>

text \<open>
  C8: the key depends on nothing but the mode (whether the barcode flag is set, whether
  an index file is given) and the input records and streams. Two evaluations of the
  derivation in states with the same inputs give the same key, whatever the backends, the
  stores, the outputs and the counters are; and two runs of the loop that start from the
  same inputs and both end normally derive the same keys in the same order, whatever the
  answers of their stores are.
\<close>

theorem fingerprint_deterministic:
  assumes "same_mode cfg cfg'" and "same_inputs s s'"
  shows "fst (fingerprint SHA256 cfg s) = fst (fingerprint SHA256 cfg' s') \<and>
    (\<forall>tr sf tr' sf'.
       main_loop lib SHA256 cfg s = (tr, Inr sf) \<and> main_loop lib' SHA256 cfg' s' = (tr', Inr sf')
         \<longrightarrow> map key tr = map key tr')"
  using fingerprint_same(1) [OF assms] main_loop_keys_agree [OF _ _ assms] by blast

theorem fingerprint_deterministic_witness:
  "same_mode (config_of [] False Memory) (config_of [] False Sqlite) \<and>
   same_inputs
     (start_state ''@r1\<newline>AC\<newline>+\<newline>II\<newline>@r2\<newline>AC\<newline>+\<newline>II\<newline>''
        ''@r1\<newline>GT\<newline>+\<newline>II\<newline>@r2\<newline>GT\<newline>+\<newline>II\<newline>'' [] (Some []) (Some []) None
        (None :: string set option))
     (start_state ''@r1\<newline>AC\<newline>+\<newline>II\<newline>@r2\<newline>AC\<newline>+\<newline>II\<newline>''
        ''@r1\<newline>GT\<newline>+\<newline>II\<newline>@r2\<newline>GT\<newline>+\<newline>II\<newline>'' [] None None
        (Some \<lparr>hashes = {}, faults = [StepFails Busy]\<rparr>) (None :: string set option)) \<and>
   map key (fst (main_loop set_filter bytes_digest (config_of [] False Memory)
     (start_state ''@r1\<newline>AC\<newline>+\<newline>II\<newline>@r2\<newline>AC\<newline>+\<newline>II\<newline>''
        ''@r1\<newline>GT\<newline>+\<newline>II\<newline>@r2\<newline>GT\<newline>+\<newline>II\<newline>'' [] (Some []) (Some []) None None)))
   = map key (fst (main_loop set_filter bytes_digest (config_of [] False Sqlite)
     (start_state ''@r1\<newline>AC\<newline>+\<newline>II\<newline>@r2\<newline>AC\<newline>+\<newline>II\<newline>''
        ''@r1\<newline>GT\<newline>+\<newline>II\<newline>@r2\<newline>GT\<newline>+\<newline>II\<newline>'' [] None None
        (Some \<lparr>hashes = {}, faults = [StepFails Busy]\<rparr>) None))) \<and>
   map unique (fst (main_loop set_filter bytes_digest (config_of [] False Memory)
     (start_state ''@r1\<newline>AC\<newline>+\<newline>II\<newline>@r2\<newline>AC\<newline>+\<newline>II\<newline>''
        ''@r1\<newline>GT\<newline>+\<newline>II\<newline>@r2\<newline>GT\<newline>+\<newline>II\<newline>'' [] (Some []) (Some []) None None)))
     = [True, False] \<and>
   map unique (fst (main_loop set_filter bytes_digest (config_of [] False Sqlite)
     (start_state ''@r1\<newline>AC\<newline>+\<newline>II\<newline>@r2\<newline>AC\<newline>+\<newline>II\<newline>''
        ''@r1\<newline>GT\<newline>+\<newline>II\<newline>@r2\<newline>GT\<newline>+\<newline>II\<newline>'' [] None None
        (Some \<lparr>hashes = {}, faults = [StepFails Busy]\<rparr>) None)))
     = [False, True]"
proof -
  let ?c = "config_of [] False Memory" and ?c' = "config_of [] False Sqlite"
  let ?s = "start_state ''@r1\<newline>AC\<newline>+\<newline>II\<newline>@r2\<newline>AC\<newline>+\<newline>II\<newline>''
        ''@r1\<newline>GT\<newline>+\<newline>II\<newline>@r2\<newline>GT\<newline>+\<newline>II\<newline>'' [] (Some []) (Some []) None
        (None :: string set option)"
  let ?s' = "start_state ''@r1\<newline>AC\<newline>+\<newline>II\<newline>@r2\<newline>AC\<newline>+\<newline>II\<newline>''
        ''@r1\<newline>GT\<newline>+\<newline>II\<newline>@r2\<newline>GT\<newline>+\<newline>II\<newline>'' [] None None
        (Some \<lparr>hashes = {}, faults = [StepFails Busy]\<rparr>) (None :: string set option)"
  let ?m = "main_loop set_filter bytes_digest ?c ?s"
  let ?m' = "main_loop set_filter bytes_digest ?c' ?s'"
  have sm: "same_mode ?c ?c'" by (simp add: same_mode_def config_of_def)
  have si: "same_inputs ?s ?s'" by (simp add: same_inputs_def start_state_def)
  have "no_throw ?c ?s" "no_throw ?c' ?s'"
    by (simp_all add: no_throw_def config_of_def start_state_def)
  from main_loop_returns [OF this(1), of set_filter bytes_digest]
       main_loop_returns [OF this(2), of set_filter bytes_digest]
  obtain sf sf' where "snd ?m = Inr sf" "snd ?m' = Inr sf'" by blast
  then have r: "?m = (fst ?m, Inr sf)" "?m' = (fst ?m', Inr sf')"
    by (simp_all add: prod_eq_iff)
  from fingerprint_deterministic [OF sm si, of bytes_digest set_filter set_filter] r
  have k: "map key (fst ?m) = map key (fst ?m')" by blast
  have u: "map unique (fst ?m) = [True, False]" "map unique (fst ?m') = [False, True]"
    by (simp_all add: run_defs)
  from sm si k u show ?thesis by simp
qed

subsection \<open>C9: the pre-scan and the sizing of the Bloom filter\<close>

text \<open>
  C9 says that the pre-scan counts the quartets of the first read stream. It counts the
  lines that \<^verbatim>\<open>gzgets\<close> delivers with a buffer of 8192 bytes, where the loop reads
  with a buffer of 10000 bytes, and a line that fills the smaller buffer is counted more
  than once. The first read file here holds two records whose sequences and qualities are
  8191 bytes long: the pre-scan finds twelve lines and returns 3, the stream has two
  quartets and the run processes two pairs.
\<close>

theorem prescan_counts_filled_buffers:
  "count_fastq_records long_pairs (read1_file (config_of [] False Bloom)) = Inr 3 \<and>
   length (gz_lines 8192 long_reads) = 12 \<and>
   length (gz_lines 10000 long_reads) = 8 \<and>
   quartets long_reads = 2 \<and>
   (\<exists>tr s. main set_filter bytes_digest (config_of [] False Bloom) long_pairs
              = (Exit 0, tr, Some s) \<and>
            length tr = 2 \<and> processed s = 2)"
proof -
  let ?cfg = "config_of [] False Bloom"
  have f: "files long_pairs (read1_file ?cfg) = Some long_reads"
    "files long_pairs (read2_file ?cfg) = Some long_reads"
    by (simp_all add: long_pairs_def env_of_def config_of_def)
  have a: "count_fastq_records long_pairs (read1_file ?cfg) = Inr 3"
    using f(1) by (simp add: count_fastq_records_def gzopen_rb_def count_lines_gz_lines
          gz_lines_long_8192)
  have q: "quartets long_reads = 2" by (simp add: quartets_def gz_lines_long_10000)
  have h: "read1_file ?cfg \<noteq> []" "read2_file ?cfg \<noteq> []"
    "index_file ?cfg \<noteq> [] \<longrightarrow> files long_pairs (index_file ?cfg) \<noteq> None"
    "backend ?cfg = Sqlite \<longrightarrow> db_open_ok long_pairs \<and> PrepareFails \<notin> set (db_faults long_pairs)"
    by (simp_all add: config_of_def)
  have ik: "inputs_kept ?cfg long_pairs"
    by (simp add: inputs_kept_def one_file_def out1_name_def out2_name_def filename_def
          config_of_def long_pairs_def env_of_def)
  from h(1,2) f h(3,4) obtain tr s where
    m: "main set_filter bytes_digest ?cfg long_pairs = (Exit 0, tr, Some s)" and
    p: "map pair_of tr = zip (records (stream (opened long_pairs ?cfg) (read1_file ?cfg)))
                          (records (stream (opened long_pairs ?cfg) (read2_file ?cfg)))" and
    pr: "processed s = of_nat (length tr)"
    by (rule main_pairs [of _ _ _ _ set_filter bytes_digest])
  from arg_cong [OF p, of length] q have "length tr = 2"
    by (simp add: stream_kept [OF ik f] length_records)
  with m pr a q show ?thesis by (simp add: gz_lines_long_8192 gz_lines_long_10000)
qed

text \<open>
  C9 as amended: \<^verbatim>\<open>count_fastq_records\<close> reads the whole first read stream and returns
  the number of its lines divided by four, rounded down; a line is what \<^verbatim>\<open>gzgets\<close>
  delivers with the buffer of 8192 bytes, and when no line fills that buffer the count is
  the number of quartets that the processing loop will find. With the Bloom backend the
  filter is constructed once, from parameters holding this count and the probability
  0.001 and passed once through \<^verbatim>\<open>compute_optimal_parameters\<close>; the filter of every
  state observed later is this one after a number of insertions, and nothing else.
\<close>

theorem prescan_count_and_bloom_parameters:
  assumes "files e (read1_file cfg) = Some fl"
  shows "count_fastq_records e (read1_file cfg)
           = Inr (of_nat (length (gz_lines 8192 fl)) div 4) \<and>
    ((\<forall>l\<in>set (gz_lines 8192 fl). length l < 8191) \<and> length fl < 2 ^ 64 \<longrightarrow>
       count_fastq_records e (read1_file cfg) = Inr (of_nat (quartets fl))) \<and>
    (backend cfg = Bloom \<longrightarrow>
       (\<forall>s\<in>set (observed (fst (snd (main lib SHA256 cfg e))) (snd (snd (main lib SHA256 cfg e)))).
          \<exists>ks. bloom s = Some (foldl (insert_bf lib)
                  (bloom_for lib (of_nat (length (gz_lines 8192 fl)) div 4)) ks)))"
proof -
  let ?n = "of_nat (length (gz_lines 8192 fl)) div 4 :: 64 word"
  have cnt: "count_lines fl 0 div 4 = ?n" by (simp add: count_lines_gz_lines)
  with assms have a: "count_fastq_records e (read1_file cfg) = Inr ?n"
    by (simp add: count_fastq_records_def gzopen_rb_def)
  have b: "?n = of_nat (quartets fl)"
    if "\<forall>l\<in>set (gz_lines 8192 fl). length l < 8191" and "length fl < 2 ^ 64"
  proof -
    from length_gz_lines_le [of 8192 fl] that(2) have "length (gz_lines 8192 fl) < 2 ^ 64"
      by simp
    from word64_div4 [OF this] gz_lines_buffers [OF that(1)] show ?thesis
      by (simp add: quartets_def)
  qed
  have c: "\<exists>ks. bloom s = Some (foldl (insert_bf lib) (bloom_for lib ?n) ks)"
    if be: "backend cfg = Bloom"
      and s: "s \<in> set (observed (fst (snd (main lib SHA256 cfg e))) (snd (snd (main lib SHA256 cfg e))))"
    for s
  proof -
    obtain ex tr fin where m: "main lib SHA256 cfg e = (ex, tr, fin)"
      by (cases "main lib SHA256 cfg e")
    from main_cases [OF m] show ?thesis
    proof
      assume "tr = [] \<and> fin = None \<and> ex \<noteq> Exit 0"
      with s m show ?thesis by (simp add: observed_def)
    next
      assume "\<exists>file1 file2 file3 o1 o2 store bf res.
       files e (read1_file cfg) = Some file1 \<and> files e (read2_file cfg) = Some file2 \<and>
       backend_init lib cfg e (count_lines file1 0 div 4) = Inr (store, bf) \<and>
       main_loop lib SHA256 cfg
         (start_state (stream (opened e cfg) (read1_file cfg))
            (stream (opened e cfg) (read2_file cfg)) file3 o1 o2 store bf) = (tr, res) \<and>
       fin = (case res of Inl err \<Rightarrow> None | Inr s \<Rightarrow> Some s) \<and>
       ex = (case res of Inl err \<Rightarrow> Uncaught err | Inr s \<Rightarrow> Exit 0)"
      then obtain file1 file2 file3 o1 o2 store bf res
        where fl: "files e (read1_file cfg) = Some file1"
          and bi: "backend_init lib cfg e (count_lines file1 0 div 4) = Inr (store, bf)"
          and ml: "main_loop lib SHA256 cfg
         (start_state (stream (opened e cfg) (read1_file cfg))
            (stream (opened e cfg) (read2_file cfg)) file3 o1 o2 store bf) = (tr, res)"
          and fin: "fin = (case res of Inl err \<Rightarrow> None | Inr s \<Rightarrow> Some s)"
        by blast
      from fl assms have "file1 = fl" by simp
      with bi be cnt have "bf = Some (bloom_for lib ?n)"
        by (simp add: backend_init_def bloom_for_def Let_def)
      then have "bloom (start_state (stream (opened e cfg) (read1_file cfg))
            (stream (opened e cfg) (read2_file cfg)) file3 o1 o2 store bf)
          = Some (foldl (insert_bf lib) (bloom_for lib ?n) [])"
        by (simp add: start_state_def)
      from main_loop_bloom [OF ml be this] s m fin show ?thesis
        by (auto simp: observed_def split: sum.splits)
    qed
  qed
  from a b c show ?thesis by auto
qed

theorem prescan_count_and_bloom_parameters_witness:
  "files two_barcodes (read1_file (config_of [] False Bloom))
     = Some ''@r:AA 1\<newline>AC\<newline>+\<newline>II\<newline>@r:CC 1\<newline>AC\<newline>+\<newline>II\<newline>'' \<and>
   list_all (\<lambda>l. length l < 8191)
     (gz_lines 8192 ''@r:AA 1\<newline>AC\<newline>+\<newline>II\<newline>@r:CC 1\<newline>AC\<newline>+\<newline>II\<newline>'') \<and>
   quartets ''@r:AA 1\<newline>AC\<newline>+\<newline>II\<newline>@r:CC 1\<newline>AC\<newline>+\<newline>II\<newline>'' = 2 \<and>
   count_fastq_records two_barcodes (read1_file (config_of [] False Bloom)) = Inr 2 \<and>
   backend (config_of [] False Bloom) = Bloom \<and>
   bloom_for set_filter 2 = {} \<and>
   map bloom
     (observed (fst (snd (main set_filter bytes_digest (config_of [] False Bloom) two_barcodes)))
        (snd (snd (main set_filter bytes_digest (config_of [] False Bloom) two_barcodes))))
     = [Some {''41430a47540a''}, Some {''41430a47540a''}, Some {''41430a47540a''}] \<and>
   list_all (\<lambda>s. \<exists>ks. bloom s = Some (foldl (insert_bf set_filter) (bloom_for set_filter 2) ks))
     (observed (fst (snd (main set_filter bytes_digest (config_of [] False Bloom) two_barcodes)))
        (snd (snd (main set_filter bytes_digest (config_of [] False Bloom) two_barcodes))))"
proof -
  let ?fl = "''@r:AA 1\<newline>AC\<newline>+\<newline>II\<newline>@r:CC 1\<newline>AC\<newline>+\<newline>II\<newline>''"
  let ?cfg = "config_of [] False Bloom"
  have f: "files two_barcodes (read1_file ?cfg) = Some ?fl"
    by (simp add: two_barcodes_def env_of_def config_of_def)
  have g: "gz_lines 8192 ?fl
      = [''@r:AA 1\<newline>'', ''AC\<newline>'', ''+\<newline>'', ''II\<newline>'', ''@r:CC 1\<newline>'', ''AC\<newline>'', ''+\<newline>'', ''II\<newline>'']"
    by (simp add: gz_lines.simps gzgets_def newline_def)
  have q: "quartets ?fl = 2"
    by (simp add: quartets_def gz_lines.simps gzgets_def newline_def)
  have be: "backend ?cfg = Bloom" by (simp add: config_of_def)
  have bf: "bloom_for set_filter 2 = {}" by (simp add: bloom_for_def set_filter_def)
  have v: "map bloom
     (observed (fst (snd (main set_filter bytes_digest ?cfg two_barcodes)))
        (snd (snd (main set_filter bytes_digest ?cfg two_barcodes))))
     = [Some {''41430a47540a''}, Some {''41430a47540a''}, Some {''41430a47540a''}]"
    by (simp add: two_barcodes_def run_defs)
  from prescan_count_and_bloom_parameters [OF f, of set_filter bytes_digest] f g q be bf v
  show ?thesis by (simp add: list_all_iff)
qed

subsection \<open>C10: the index stream ends before the read streams\<close>

text \<open>
  C10 says that once the index stream has fewer than four lines left the loop goes on and
  every later key is derived from the sequence of the index record read before. It is not
  so when two or three lines are left: the failing read has already stored the second of
  them in \<^verbatim>\<open>r3.seq\<close>. Here the index stream holds one record and the first two lines of
  a second one; the second pair, whose reads repeat the first, gets a key derived from
  \<open>CC\<close> and not from \<open>AA\<close>, and is unique.
\<close>

theorem partial_index_record_changes_key:
  "(case main set_filter bytes_digest (config_of ''I.fq'' False Memory) index_cut_short of
      (ex, tr, fin) \<Rightarrow>
        ex = Exit 0 \<and>
        map key tr = [sha256 bytes_digest ''AA\<newline>AC\<newline>GT\<newline>'', sha256 bytes_digest ''CC\<newline>AC\<newline>GT\<newline>''] \<and>
        map unique tr = [True, True]) \<and>
   sha256 bytes_digest ''CC\<newline>AC\<newline>GT\<newline>'' \<noteq> sha256 bytes_digest ''AA\<newline>AC\<newline>GT\<newline>''"
  by (simp add: index_cut_short_def run_defs)

text \<open>
  C10 as amended: in external-index mode, from a state where fewer than four lines of the
  index stream are left, the result of the failing read is ignored and the loop goes on
  until one of the two read streams is exhausted: it processes the pairs of their leading
  records, as many as the shorter one has quartets. Every key is derived from the
  sequence of the index record as the failing read leaves it: the sequence read before
  when fewer than two lines were left, the second of the lines left otherwise.
\<close>

theorem index_exhausted_keys:
  assumes "index_file cfg \<noteq> []" and "quartets (f3 s) = 0"
    and "main_loop lib SHA256 cfg s = (tr, res)"
  shows "(\<forall>ob\<in>set tr.
            key ob = sha256 SHA256
              (seq (index_record_left s) @ seq (r1 (after ob)) @ seq (r2 (after ob)))) \<and>
    seq (index_record_left s)
      = (if length (gz_lines 10000 (f3 s)) < 2 then seq (r3 s)
         else c_string (gz_lines 10000 (f3 s) ! 1)) \<and>
    (\<forall>s'. res = Inr s' \<longrightarrow>
       length tr = min (quartets (f1 s)) (quartets (f2 s)) \<and>
       map pair_of tr = zip (records (f1 s)) (records (f2 s))) \<and>
    (no_throw cfg s \<longrightarrow> (\<exists>s'. res = Inr s'))"
proof -
  have a: "\<forall>ob\<in>set tr.
            key ob = sha256 SHA256
              (seq (index_record_left s) @ seq (r1 (after ob)) @ seq (r2 (after ob)))"
    using main_loop_index_exhausted [OF assms(3,1,2)] by simp
  have b: "seq (index_record_left s)
      = (if length (gz_lines 10000 (f3 s)) < 2 then seq (r3 s)
         else c_string (gz_lines 10000 (f3 s) ! 1))"
    unfolding index_record_left_def by (rule read_exhausted(3) [OF assms(2)])
  have c: "length tr = min (quartets (f1 s)) (quartets (f2 s)) \<and>
       map pair_of tr = zip (records (f1 s)) (records (f2 s))" if "res = Inr s'" for s'
  proof -
    from main_loop_pairs [OF assms(3) [unfolded that]]
    have p: "map pair_of tr = zip (records (f1 s)) (records (f2 s))" .
    from arg_cong [OF p, of length] have "length tr = min (quartets (f1 s)) (quartets (f2 s))"
      by (simp add: length_records)
    with p show ?thesis by simp
  qed
  have d: "\<exists>s'. res = Inr s'" if "no_throw cfg s"
    using main_loop_returns [OF that, of lib SHA256] assms(3) by simp
  from a b c d show ?thesis by blast
qed


theorem index_exhausted_keys_witness:
  "index_file (config_of ''I.fq'' False Memory) \<noteq> [] \<and>
   quartets ''@i2\<newline>CC\<newline>'' = 0 \<and>
   gz_lines 10000 ''@i2\<newline>CC\<newline>'' = [''@i2\<newline>'', ''CC\<newline>''] \<and>
   seq (index_record_left
          (start_state ''@r1\<newline>AC\<newline>+\<newline>II\<newline>@r2\<newline>AC\<newline>+\<newline>II\<newline>''
             ''@r1\<newline>GT\<newline>+\<newline>II\<newline>@r2\<newline>GT\<newline>+\<newline>II\<newline>'' ''@i2\<newline>CC\<newline>''
             (Some []) (Some []) None (None :: string set option))) = ''CC\<newline>'' \<and>
   map key (fst (main_loop set_filter bytes_digest (config_of ''I.fq'' False Memory)
          (start_state ''@r1\<newline>AC\<newline>+\<newline>II\<newline>@r2\<newline>AC\<newline>+\<newline>II\<newline>''
             ''@r1\<newline>GT\<newline>+\<newline>II\<newline>@r2\<newline>GT\<newline>+\<newline>II\<newline>'' ''@i2\<newline>CC\<newline>''
             (Some []) (Some []) None None)))
     = [sha256 bytes_digest ''CC\<newline>AC\<newline>GT\<newline>'', sha256 bytes_digest ''CC\<newline>AC\<newline>GT\<newline>''] \<and>
   length (fst (main_loop set_filter bytes_digest (config_of ''I.fq'' False Memory)
          (start_state ''@r1\<newline>AC\<newline>+\<newline>II\<newline>@r2\<newline>AC\<newline>+\<newline>II\<newline>''
             ''@r1\<newline>GT\<newline>+\<newline>II\<newline>@r2\<newline>GT\<newline>+\<newline>II\<newline>'' ''@i2\<newline>CC\<newline>''
             (Some []) (Some []) None None))) = 2"
proof -
  let ?cfg = "config_of ''I.fq'' False Memory"
  let ?s = "start_state ''@r1\<newline>AC\<newline>+\<newline>II\<newline>@r2\<newline>AC\<newline>+\<newline>II\<newline>''
             ''@r1\<newline>GT\<newline>+\<newline>II\<newline>@r2\<newline>GT\<newline>+\<newline>II\<newline>'' ''@i2\<newline>CC\<newline>''
             (Some []) (Some []) None (None :: string set option)"
  let ?m = "main_loop set_filter bytes_digest ?cfg ?s"
  have i: "index_file ?cfg \<noteq> []" by (simp add: config_of_def)
  have g: "gz_lines 10000 ''@i2\<newline>CC\<newline>'' = [''@i2\<newline>'', ''CC\<newline>'']"
    by (simp add: gz_lines.simps gzgets_def newline_def)
  then have q: "quartets (f3 ?s) = 0" by (simp add: quartets_def start_state_def)
  have m: "?m = (fst ?m, snd ?m)" by simp
  have st: "f3 ?s = ''@i2\<newline>CC\<newline>''"
    "f1 ?s = ''@r1\<newline>AC\<newline>+\<newline>II\<newline>@r2\<newline>AC\<newline>+\<newline>II\<newline>''"
    "f2 ?s = ''@r1\<newline>GT\<newline>+\<newline>II\<newline>@r2\<newline>GT\<newline>+\<newline>II\<newline>''"
    by (simp_all add: start_state_def)
  have nt: "no_throw ?cfg ?s" by (simp add: no_throw_def config_of_def)
  have q1: "quartets ''@r1\<newline>AC\<newline>+\<newline>II\<newline>@r2\<newline>AC\<newline>+\<newline>II\<newline>'' = 2"
    "quartets ''@r1\<newline>GT\<newline>+\<newline>II\<newline>@r2\<newline>GT\<newline>+\<newline>II\<newline>'' = 2"
    by (simp_all add: quartets_def gz_lines.simps gzgets_def newline_def)
  have sr: "map (\<lambda>ob. (seq (r1 (after ob)), seq (r2 (after ob)))) (fst ?m)
      = [(''AC\<newline>'', ''GT\<newline>''), (''AC\<newline>'', ''GT\<newline>'')]"
    by (simp add: run_defs)
  from index_exhausted_keys [OF i q m] have
    k: "\<forall>ob\<in>set (fst ?m).
            key ob = sha256 bytes_digest
              (seq (index_record_left ?s) @ seq (r1 (after ob)) @ seq (r2 (after ob)))"
    and s: "seq (index_record_left ?s) = ''CC\<newline>''"
    and l: "\<forall>s'. snd ?m = Inr s' \<longrightarrow> length (fst ?m) = 2"
    and e: "\<exists>s'. snd ?m = Inr s'"
    using g nt st q1 by (simp_all add: c_string_def NUL_def)
  from k s have "map key (fst ?m)
      = map (\<lambda>ob. sha256 bytes_digest (''CC\<newline>'' @ seq (r1 (after ob)) @ seq (r2 (after ob)))) (fst ?m)"
    by simp
  also have "\<dots> = map (\<lambda>(a, b). sha256 bytes_digest (''CC\<newline>'' @ a @ b))
      (map (\<lambda>ob. (seq (r1 (after ob)), seq (r2 (after ob)))) (fst ?m))"
    by (simp add: comp_def)
  also have "\<dots> = [sha256 bytes_digest ''CC\<newline>AC\<newline>GT\<newline>'', sha256 bytes_digest ''CC\<newline>AC\<newline>GT\<newline>'']"
    unfolding sr by simp
  finally have kk: "map key (fst ?m)
      = [sha256 bytes_digest ''CC\<newline>AC\<newline>GT\<newline>'', sha256 bytes_digest ''CC\<newline>AC\<newline>GT\<newline>'']" .
  from l e have "length (fst ?m) = 2" by blast
  with i q g s kk st show ?thesis by simp
qed

end
